theory Spec2Isabelle
  imports Complex_Main "HOL-Library.Multiset" "HOL-Library.Log_Nat"
    "HOL-Library.List_Lexorder" "HOL-Library.Char_ord"
begin

section \<open>Block bookkeeping of the retro preprocessing utilities\<close>

text \<open>
  A shallow embedding of \<^verbatim>\<open>megatron/core/models/retro/data/utils.py\<close>:
  \<^verbatim>\<open>get_blocks\<close>, \<^verbatim>\<open>get_blocks_by_rank\<close>, \<^verbatim>\<open>get_sampled_blocks_by_rank\<close> and the class
  \<^verbatim>\<open>BlockPathMap\<close>. Python integers are \<open>int\<close>, strings are \<open>string\<close>, every exception
  the code can raise is a value of \<open>py_error\<close>, and the file system and the random
  shuffle are explicit arguments.
\<close>

subsection \<open>Exceptions\<close>

datatype py_error =
  ValueError | OverflowError | ZeroDivisionError | KeyError | AssertionError
  | FileNotFoundError

subsection \<open>\<^verbatim>\<open>range(start, stop, step)\<close>\<close>

text \<open>
  The elements Python's \<^verbatim>\<open>range\<close> yields, as the loop that produces them: ascending
  while below \<open>stop\<close> for a positive step, descending while above it for a negative
  one. A zero step is refused by \<open>py_range\<close> below, as Python does.
\<close>

function range_loop :: "int \<Rightarrow> int \<Rightarrow> int \<Rightarrow> int list" where
  "range_loop i stop step =
     (if 0 < step then (if i < stop then i # range_loop (i + step) stop step else [])
      else if step < 0 then (if stop < i then i # range_loop (i + step) stop step else [])
      else [])"
  by pat_completeness auto
termination
  by (relation "measure (\<lambda>(i, stop, step). nat (if 0 < step then stop - i else i - stop))") auto

declare range_loop.simps [simp del]

definition py_range :: "int \<Rightarrow> int \<Rightarrow> int \<Rightarrow> py_error + int list" where
  "py_range start stop step =
     (if step = 0 then Inl ValueError else Inr (range_loop start stop step))"

subsection \<open>Block ranges (\<^verbatim>\<open>get_blocks\<close>, lines 101-104)\<close>

text \<open>
  \<^verbatim>\<open>block_start_idxs = list(range(0, n_samples, block_size))\<close>,
  \<^verbatim>\<open>block_end_idxs = [ min(n_samples, i + block_size) for i in block_start_idxs ]\<close>,
  \<^verbatim>\<open>block_ranges = list(zip(block_start_idxs, block_end_idxs))\<close>.
\<close>

definition block_ranges :: "int \<Rightarrow> int \<Rightarrow> py_error + (int \<times> int) list" where
  "block_ranges n_samples block_size =
     (case py_range 0 n_samples block_size of
        Inl e \<Rightarrow> Inl e
      | Inr block_start_idxs \<Rightarrow>
          (let block_end_idxs = map (\<lambda>i. min n_samples (i + block_size)) block_start_idxs
           in Inr (zip block_start_idxs block_end_idxs)))"

text \<open>The number of blocks: \<open>n_samples\<close> divided by \<open>block_size\<close>, rounded up.\<close>

definition n_blocks :: "int \<Rightarrow> int \<Rightarrow> nat" where
  "n_blocks n_samples block_size = nat ((n_samples + block_size - 1) div block_size)"

subsection \<open>Strings: \<^verbatim>\<open>str\<close>, \<^verbatim>\<open>zfill\<close>, \<^verbatim>\<open>int\<close>, \<^verbatim>\<open>split\<close>\<close>

definition digit_char :: "nat \<Rightarrow> char" where
  "digit_char d = ''0123456789'' ! d"

definition is_digit :: "char \<Rightarrow> bool" where
  "is_digit c = (c \<in> set ''0123456789'')"

definition digit_val :: "char \<Rightarrow> nat" where
  "digit_val c = of_char c - 48"

text \<open>\<^verbatim>\<open>str(i)\<close> of an integer: its decimal digits, a minus sign in front when negative.\<close>

fun str_nat :: "nat \<Rightarrow> string" where
  "str_nat n = (if n < 10 then [digit_char n] else str_nat (n div 10) @ [digit_char (n mod 10)])"

declare str_nat.simps [simp del]

definition str_int :: "int \<Rightarrow> string" where
  "str_int i = (if i < 0 then CHR ''-'' # str_nat (nat (- i)) else str_nat (nat i))"

text \<open>
  \<^verbatim>\<open>s.zfill(width)\<close>: zeros on the left up to \<open>width\<close> characters, after a leading sign
  when there is one; a string already that long is returned as it is.
\<close>

definition zfill :: "string \<Rightarrow> int \<Rightarrow> string" where
  "zfill s width =
     (let fill = replicate (nat (width - int (length s))) CHR ''0''
      in case s of
           [] \<Rightarrow> fill
         | c # r \<Rightarrow> if c = CHR ''+'' \<or> c = CHR ''-'' then c # fill @ r else fill @ s)"

text \<open>
  \<^verbatim>\<open>int(s)\<close> on text of code points below 256: surrounding white space is dropped (tab
  to carriage return, space, and the code points 0x85 and 0xA0; the separators 0x1C to
  0x1F are not), one sign is allowed, and the body is decimal digits with single
  underscores between digits; anything else raises \<^verbatim>\<open>ValueError\<close>.
\<close>

definition is_space :: "char \<Rightarrow> bool" where
  "is_space c = (of_char c \<in> {9, 10, 11, 12, 13, 32, 133, 160 :: nat})"

definition strip :: "string \<Rightarrow> string" where
  "strip s = rev (dropWhile is_space (rev (dropWhile is_space s)))"

fun no_double_underscore :: "string \<Rightarrow> bool" where
  "no_double_underscore (a # b # cs) =
     (\<not> (a = CHR ''_'' \<and> b = CHR ''_'') \<and> no_double_underscore (b # cs))"
| "no_double_underscore cs = True"

definition valid_int_body :: "string \<Rightarrow> bool" where
  "valid_int_body s =
     (s \<noteq> [] \<and> list_all (\<lambda>c. is_digit c \<or> c = CHR ''_'') s \<and> is_digit (hd s)
      \<and> is_digit (last s) \<and> no_double_underscore s)"

definition digits_value :: "string \<Rightarrow> nat" where
  "digits_value s = foldl (\<lambda>acc c. acc * 10 + digit_val c) 0 s"

definition py_int :: "string \<Rightarrow> py_error + int" where
  "py_int s =
     (let t = strip s;
          neg = (t \<noteq> [] \<and> hd t = CHR ''-'');
          body = (if t \<noteq> [] \<and> (hd t = CHR ''-'' \<or> hd t = CHR ''+'') then tl t else t)
      in if valid_int_body body
         then Inr ((if neg then - 1 else 1) * int (digits_value (filter is_digit body)))
         else Inl ValueError)"

text \<open>\<^verbatim>\<open>s.split(sep)\<close> for a one-character separator: always at least one part.\<close>

fun split_on :: "char \<Rightarrow> string \<Rightarrow> string list" where
  "split_on sep [] = [[]]"
| "split_on sep (c # cs) =
     (if c = sep then [] # split_on sep cs
      else (case split_on sep cs of
              [] \<Rightarrow> [[c]]
            | p # ps \<Rightarrow> (c # p) # ps))"

subsection \<open>Paths: \<^verbatim>\<open>os.path.join\<close>, \<^verbatim>\<open>basename\<close>, \<^verbatim>\<open>splitext\<close>\<close>

definition path_join :: "string \<Rightarrow> string \<Rightarrow> string" where
  "path_join a b =
     (if b \<noteq> [] \<and> hd b = CHR ''/'' then b
      else if a = [] \<or> last a = CHR ''/'' then a @ b
      else a @ ''/'' @ b)"

definition basename :: "string \<Rightarrow> string" where
  "basename p = rev (takeWhile (\<lambda>c. c \<noteq> CHR ''/'') (rev p))"

text \<open>
  \<^verbatim>\<open>os.path.splitext\<close>: the extension starts at the last dot, when that dot comes after
  the last separator and some character of the file name before it is not a dot.
\<close>

definition splitext :: "string \<Rightarrow> string \<times> string" where
  "splitext p =
     (if CHR ''.'' \<in> set p
      then (let ext_len = Suc (length (takeWhile (\<lambda>c. c \<noteq> CHR ''.'') (rev p)));
                root = take (length p - ext_len) p;
                ext = drop (length p - ext_len) p
            in if CHR ''/'' \<notin> set ext \<and> (\<exists>c \<in> set (basename root). c \<noteq> CHR ''.'')
               then (root, ext) else (p, []))
      else (p, []))"

subsection \<open>Double-precision numbers\<close>

text \<open>
  Python's \<^verbatim>\<open>float\<close> and numpy's \<^verbatim>\<open>float64\<close> are IEEE 754 doubles. \<open>Finite m e\<close> stands for
  the number \<open>m * 2 ^ e\<close>; a double has \<open>|m| < 2 ^ 53\<close> and \<open>- 1074 \<le> e \<le> 971\<close>. The sign of
  a zero is not kept: nothing below depends on it.
\<close>

datatype py_float = Finite int int | PInf | NInf | NaN



text \<open>\<open>m / 2 ^ k\<close> rounded to the nearest integer, a tie going to the even one.\<close>

definition rshift_rne :: "int \<Rightarrow> nat \<Rightarrow> int" where
  "rshift_rne m k =
     (if k = 0 then m
      else (let q = m div 2 ^ k; r = m mod 2 ^ k; h = 2 ^ (k - 1)
            in if h < r \<or> (r = h \<and> odd q) then q + 1 else q))"

text \<open>
  The double nearest to \<open>m * 2 ^ e\<close> (round to nearest, ties to even): the mantissa is
  cut to 53 bits, the exponent is kept at \<open>- 1074\<close> or above (gradual underflow), and a
  result of \<open>2 ^ 1024\<close> or more in magnitude is an infinity.
\<close>

definition round_double :: "int \<Rightarrow> int \<Rightarrow> py_float" where
  "round_double m e =
     (let k = nat (max 0 (max (bitlen \<bar>m\<bar> - 53) (- 1074 - e)));
          q = rshift_rne m k;
          e' = e + int k
      in if q \<noteq> 0 \<and> 1024 < bitlen \<bar>q\<bar> + e' then (if 0 < q then PInf else NInf)
         else Finite q e')"

text \<open>An integer operand of a float operation is converted first; Python raises when it
  is too large.\<close>

definition float_of_nat :: "nat \<Rightarrow> py_error + py_float" where
  "float_of_nat n =
     (case round_double (int n) 0 of Finite m e \<Rightarrow> Inr (Finite m e) | _ \<Rightarrow> Inl OverflowError)"

fun float_mul :: "py_float \<Rightarrow> py_float \<Rightarrow> py_float" where
  "float_mul (Finite m e) (Finite m' e') = round_double (m * m') (e + e')"
| "float_mul NaN y = NaN"
| "float_mul x NaN = NaN"
| "float_mul (Finite m e) PInf = (if m = 0 then NaN else if 0 < m then PInf else NInf)"
| "float_mul (Finite m e) NInf = (if m = 0 then NaN else if 0 < m then NInf else PInf)"
| "float_mul PInf (Finite m e) = (if m = 0 then NaN else if 0 < m then PInf else NInf)"
| "float_mul NInf (Finite m e) = (if m = 0 then NaN else if 0 < m then NInf else PInf)"
| "float_mul PInf PInf = PInf"
| "float_mul PInf NInf = NInf"
| "float_mul NInf PInf = NInf"
| "float_mul NInf NInf = PInf"


text \<open>\<^verbatim>\<open>np.ceil\<close>: the least integer not below the number, itself a float.\<close>

fun float_ceil :: "py_float \<Rightarrow> py_float" where
  "float_ceil (Finite m e) =
     Finite (if 0 \<le> e then m * 2 ^ nat e else - ((- m) div 2 ^ nat (- e))) 0"
| "float_ceil x = x"

text \<open>\<^verbatim>\<open>int(x)\<close> of a float cuts towards zero and raises on nan and on an infinity.\<close>

fun float_to_int :: "py_float \<Rightarrow> py_error + int" where
  "float_to_int (Finite m e) =
     Inr (if 0 \<le> e then m * 2 ^ nat e
          else if 0 \<le> m then m div 2 ^ nat (- e) else - ((- m) div 2 ^ nat (- e)))"
| "float_to_int NaN = Inl ValueError"
| "float_to_int x = Inl OverflowError"

subsection \<open>Block descriptors and their paths (\<^verbatim>\<open>get_blocks\<close>, lines 106-115)\<close>

text \<open>
  \<^verbatim>\<open>n_digits = int(np.ceil(np.log(n_samples) / np.log(10)) + 1)\<close>. In \<open>n_digits_of\<close> the
  logarithm is the real one. numpy's is a library routine on doubles whose last digit is
  not fixed by the source, so its quotient can fall on the other side of an integer for
  some large \<open>n_samples\<close>; what is proved of the width itself is therefore stated with
  \<open>n_digits_of_quot\<close> below, which takes the double quotient as it is. On \<open>0\<close> numpy
  yields minus infinity and \<^verbatim>\<open>int\<close> raises \<^verbatim>\<open>OverflowError\<close>; on a negative number it yields
  nan and \<^verbatim>\<open>int\<close> raises \<^verbatim>\<open>ValueError\<close>; on a Python integer of \<open>2 ^ 64\<close> or more
  \<^verbatim>\<open>np.log\<close> itself raises \<^verbatim>\<open>TypeError\<close>, which \<open>n_digits_of\<close> does not represent.
\<close>

definition n_digits_of :: "int \<Rightarrow> py_error + int" where
  "n_digits_of n_samples =
     (if n_samples = 0 then Inl OverflowError
      else if n_samples < 0 then Inl ValueError
      else Inr (\<lceil>ln (real_of_int n_samples) / ln 10\<rceil> + 1))"



record block =
  range_idxs :: "int \<times> int"
  path :: string

text \<open>\<^verbatim>\<open>"%s-%s.hdf5" % tuple([ str(i).zfill(n_digits) for i in r ])\<close> under the directory.\<close>

definition block_path :: "string \<Rightarrow> int \<Rightarrow> int \<times> int \<Rightarrow> string" where
  "block_path project_dir n_digits r =
     path_join project_dir
       (zfill (str_int (fst r)) n_digits @ ''-'' @ zfill (str_int (snd r)) n_digits @ ''.hdf5'')"

definition all_blocks_of :: "string \<Rightarrow> int \<Rightarrow> int \<Rightarrow> py_error + block list" where
  "all_blocks_of project_dir n_samples block_size =
     (case block_ranges n_samples block_size of
        Inl e \<Rightarrow> Inl e
      | Inr rs \<Rightarrow>
          (case n_digits_of n_samples of
             Inl e \<Rightarrow> Inl e
           | Inr n_digits \<Rightarrow>
               Inr (map (\<lambda>r. \<lparr>range_idxs = r, path = block_path project_dir n_digits r\<rparr>) rs)))"


text \<open>
  The \<open>k\<close>-th block that a positive block size yields, in closed form; the lemmas
  below show that \<open>all_blocks_of\<close> computes exactly these.
\<close>

definition nth_range :: "int \<Rightarrow> int \<Rightarrow> nat \<Rightarrow> int \<times> int" where
  "nth_range n_samples block_size k =
     (int k * block_size, min n_samples (int k * block_size + block_size))"

definition nth_block :: "string \<Rightarrow> int \<Rightarrow> int \<Rightarrow> nat \<Rightarrow> block" where
  "nth_block project_dir n_samples block_size k =
     \<lparr>range_idxs = nth_range n_samples block_size k,
      path = block_path project_dir (\<lceil>ln (real_of_int n_samples) / ln 10\<rceil> + 1)
               (nth_range n_samples block_size k)\<rparr>"

subsection \<open>The file system and the scanner (\<^verbatim>\<open>get_blocks\<close>, lines 117-152)\<close>

text \<open>
  A file either cannot be opened as a block file or opens to a handle; the validation
  callback returns (\<open>True\<close>) or raises (\<open>False\<close>) on a handle. The directory is a partial
  map from paths to files: every entry is a file that \<^verbatim>\<open>os.remove\<close> can delete. A
  subdirectory under the name of a block file, on which \<^verbatim>\<open>os.remove\<close> raises, is not
  represented.
\<close>

datatype 'h h5file = Unreadable | Readable 'h

type_synonym 'h filesystem = "string \<Rightarrow> 'h h5file option"

definition os_path_exists :: "'h filesystem \<Rightarrow> string \<Rightarrow> bool" where
  "os_path_exists fs p = (fs p \<noteq> None)"

definition os_remove :: "string \<Rightarrow> 'h filesystem \<Rightarrow> py_error + 'h filesystem" where
  "os_remove p fs = (case fs p of None \<Rightarrow> Inl FileNotFoundError | Some f \<Rightarrow> Inr (fs(p := None)))"

text \<open>
  The loop of lines 125-141 over \<^verbatim>\<open>existing_block_paths\<close>: the assertion, then the file
  is removed when it does not open or when the callback raises on it.
\<close>

fun validate_loop ::
  "string set \<Rightarrow> ('h \<Rightarrow> bool) \<Rightarrow> string list \<Rightarrow> 'h filesystem \<Rightarrow> py_error + 'h filesystem" where
  "validate_loop all_block_path_set validate [] fs = Inr fs"
| "validate_loop all_block_path_set validate (p # ps) fs =
     (if p \<notin> all_block_path_set then Inl AssertionError
      else (case fs p of
              Some (Readable f) \<Rightarrow>
                if validate f then validate_loop all_block_path_set validate ps fs
                else (case os_remove p fs of
                        Inl e \<Rightarrow> Inl e
                      | Inr fs' \<Rightarrow> validate_loop all_block_path_set validate ps fs')
            | _ \<Rightarrow>
                (case os_remove p fs of
                   Inl e \<Rightarrow> Inl e
                 | Inr fs' \<Rightarrow> validate_loop all_block_path_set validate ps fs')))"

definition delete_corrupt ::
  "block list \<Rightarrow> ('h \<Rightarrow> bool) \<Rightarrow> 'h filesystem \<Rightarrow> py_error + 'h filesystem" where
  "delete_corrupt all_blocks validate fs =
     (let all_block_path_set = set (map path all_blocks);
          existing_block_paths = filter (os_path_exists fs) (map path all_blocks)
      in validate_loop all_block_path_set validate existing_block_paths fs)"

record blocks =
  existing :: "block list"
  missing :: "block list"

definition collect_blocks :: "block list \<Rightarrow> 'h filesystem \<Rightarrow> blocks" where
  "collect_blocks all_blocks fs =
     \<lparr>existing = filter (\<lambda>b. os_path_exists fs (path b)) all_blocks,
      missing = filter (\<lambda>b. \<not> os_path_exists fs (path b)) all_blocks\<rparr>"

text \<open>
  \<open>get_blocks rank fs project_dir n_samples block_size validate\<close> returns the blocks and
  the file system it leaves. \<open>rank\<close> is \<^verbatim>\<open>torch.distributed.get_rank()\<close>; only rank 0
  deletes, and for another rank \<open>fs\<close> is the directory as the barrier hands it over.
  A missing callback (\<^verbatim>\<open>None\<close>) is replaced by one that never raises.
\<close>

definition get_blocks ::
  "nat \<Rightarrow> 'h filesystem \<Rightarrow> string \<Rightarrow> int \<Rightarrow> int \<Rightarrow> ('h \<Rightarrow> bool) option
   \<Rightarrow> py_error + (blocks \<times> 'h filesystem)" where
  "get_blocks rank fs project_dir n_samples block_size validate =
     (case all_blocks_of project_dir n_samples block_size of
        Inl e \<Rightarrow> Inl e
      | Inr all_blocks \<Rightarrow>
          (let validate' = (case validate of None \<Rightarrow> (\<lambda>f. True) | Some v \<Rightarrow> v)
           in case (if rank = 0 then delete_corrupt all_blocks validate' fs else Inr fs) of
                Inl e \<Rightarrow> Inl e
              | Inr fs' \<Rightarrow> Inr (collect_blocks all_blocks fs', fs')))"

subsection \<open>Sharding across ranks (\<^verbatim>\<open>get_blocks_by_rank\<close>)\<close>

text \<open>
  \<^verbatim>\<open>xs[start:len(xs):step]\<close> for a non-negative start and a positive step, with the
  length Python computes for the slice. A zero step is refused by the caller below.
\<close>

definition slice_step :: "'a list \<Rightarrow> nat \<Rightarrow> nat \<Rightarrow> 'a list" where
  "slice_step xs start step =
     map (\<lambda>k. xs ! (start + k * step)) [0..<(length xs - start + step - 1) div step]"

text \<open>
  \<^verbatim>\<open>get_world_max(n)\<close> is an all-reduce with \<^verbatim>\<open>MAX\<close>: the largest of the values the ranks
  contribute, here given as a function of the data-parallel rank.
\<close>

definition get_world_max :: "nat \<Rightarrow> (nat \<Rightarrow> nat) \<Rightarrow> nat" where
  "get_world_max world_size n_of = foldr max (map n_of [0..<world_size]) 0"

definition rank_blocks_of :: "nat \<Rightarrow> nat \<Rightarrow> 'a list \<Rightarrow> py_error + 'a option list" where
  "rank_blocks_of data_parallel_rank data_parallel_world_size xs =
     (if data_parallel_world_size = 0 then Inl ValueError
      else (let rank_blocks = slice_step xs data_parallel_rank data_parallel_world_size;
                max_n = get_world_max data_parallel_world_size
                          (\<lambda>r. length (slice_step xs r data_parallel_world_size))
            in Inr (map Some rank_blocks @ replicate (max_n - length rank_blocks) None)))"

record rank_blocks =
  n_existing_world :: nat
  n_missing_world :: nat
  rank_existing :: "block option list"
  rank_missing :: "block option list"

definition get_blocks_by_rank ::
  "nat \<Rightarrow> nat \<Rightarrow> nat \<Rightarrow> 'h filesystem \<Rightarrow> string \<Rightarrow> int \<Rightarrow> int \<Rightarrow> ('h \<Rightarrow> bool) option
   \<Rightarrow> py_error + (rank_blocks \<times> 'h filesystem)" where
  "get_blocks_by_rank rank data_parallel_rank data_parallel_world_size fs
       project_dir n_samples block_size validate =
     (case get_blocks rank fs project_dir n_samples block_size validate of
        Inl e \<Rightarrow> Inl e
      | Inr (bs, fs') \<Rightarrow>
          (case rank_blocks_of data_parallel_rank data_parallel_world_size (existing bs) of
             Inl e \<Rightarrow> Inl e
           | Inr rank_existing_blocks \<Rightarrow>
               (case rank_blocks_of data_parallel_rank data_parallel_world_size (missing bs) of
                  Inl e \<Rightarrow> Inl e
                | Inr rank_missing_blocks \<Rightarrow>
                    Inr (\<lparr>n_existing_world = length (existing bs),
                          n_missing_world = length (missing bs),
                          rank_existing = rank_existing_blocks,
                          rank_missing = rank_missing_blocks\<rparr>, fs'))))"

subsection \<open>Sampling (\<^verbatim>\<open>get_sampled_blocks_by_rank\<close>)\<close>

text \<open>\<^verbatim>\<open>xs[:n]\<close>: a negative \<open>n\<close> counts from the end.\<close>

definition py_take :: "int \<Rightarrow> 'a list \<Rightarrow> 'a list" where
  "py_take n xs = (if 0 \<le> n then take (nat n) xs else take (length xs - nat (- n)) xs)"

text \<open>
  Line 221, \<^verbatim>\<open>n_blocks_sample = int(np.ceil(fraction * len(_blocks)))\<close>: the length is
  converted to a double, the product is rounded to a double, and \<^verbatim>\<open>int\<close> raises on nan and
  on an infinity. \<open>fraction\<close> is a float; the default \<^verbatim>\<open>None\<close> of the signature, on which the
  product raises \<^verbatim>\<open>TypeError\<close>, is not represented.
\<close>

definition n_blocks_sample_of :: "py_float \<Rightarrow> nat \<Rightarrow> py_error + int" where
  "n_blocks_sample_of fraction n =
     (case float_of_nat n of
        Inl e \<Rightarrow> Inl e
      | Inr len \<Rightarrow> float_to_int (float_ceil (float_mul fraction len)))"

text \<open>
  \<^verbatim>\<open>sample_blocks\<close>. The outcome of \<^verbatim>\<open>np.random.shuffle\<close> is the argument \<open>shuffle\<close>; the
  theorems assume of it only that it permutes its list.
\<close>

definition sample_blocks ::
  "('a list \<Rightarrow> 'a list) \<Rightarrow> py_float \<Rightarrow> 'a option list \<Rightarrow> py_error + 'a option list" where
  "sample_blocks shuffle fraction blocks =
     (case n_blocks_sample_of fraction (length blocks) of
        Inl e \<Rightarrow> Inl e
      | Inr n_blocks_sample \<Rightarrow>
          (let sampled_blocks = shuffle (List.map_filter (\<lambda>b. b) blocks);
               sampled_blocks = py_take n_blocks_sample sampled_blocks
           in Inr (map Some sampled_blocks
                   @ replicate (nat (n_blocks_sample - int (length sampled_blocks))) None)))"

definition get_sampled_blocks_by_rank ::
  "(block list \<Rightarrow> block list) \<Rightarrow> (block list \<Rightarrow> block list) \<Rightarrow> py_float
   \<Rightarrow> nat \<Rightarrow> nat \<Rightarrow> nat \<Rightarrow> 'h filesystem \<Rightarrow> string \<Rightarrow> int \<Rightarrow> int \<Rightarrow> ('h \<Rightarrow> bool) option
   \<Rightarrow> py_error + (rank_blocks \<times> 'h filesystem)" where
  "get_sampled_blocks_by_rank shuffle1 shuffle2 fraction rank data_parallel_rank
       data_parallel_world_size fs project_dir n_samples block_size validate =
     (case get_blocks_by_rank rank data_parallel_rank data_parallel_world_size fs
             project_dir n_samples block_size validate of
        Inl e \<Rightarrow> Inl e
      | Inr (bs, fs') \<Rightarrow>
          (case sample_blocks shuffle1 fraction (rank_existing bs) of
             Inl e \<Rightarrow> Inl e
           | Inr sampled_existing \<Rightarrow>
               (case sample_blocks shuffle2 fraction (rank_missing bs) of
                  Inl e \<Rightarrow> Inl e
                | Inr sampled_missing \<Rightarrow>
                    Inr (bs\<lparr>rank_existing := sampled_existing,
                             rank_missing := sampled_missing\<rparr>, fs'))))"

subsection \<open>\<^verbatim>\<open>BlockPathMap\<close>\<close>

record BlockPathMap =
  max_idx :: int
  block_path_map :: "int \<Rightarrow> string option"
  map_block_size :: int

fun map_result :: "('a \<Rightarrow> py_error + 'b) \<Rightarrow> 'a list \<Rightarrow> py_error + 'b list" where
  "map_result f [] = Inr []"
| "map_result f (x # xs) =
     (case f x of
        Inl e \<Rightarrow> Inl e
      | Inr y \<Rightarrow> (case map_result f xs of Inl e \<Rightarrow> Inl e | Inr ys \<Rightarrow> Inr (y # ys)))"

text \<open>
  Lines 259-260: the name without directory and extension, split on \<^verbatim>\<open>-\<close>, each part
  read as an integer; unpacking into two names raises \<^verbatim>\<open>ValueError\<close> unless there are
  exactly two parts.
\<close>

definition parse_block_path :: "string \<Rightarrow> py_error + (int \<times> int)" where
  "parse_block_path p =
     (let name = fst (splitext (basename p))
      in case map_result py_int (split_on CHR ''-'' name) of
           Inl e \<Rightarrow> Inl e
         | Inr [start_idx, end_idx] \<Rightarrow> Inr (start_idx, end_idx)
         | Inr _ \<Rightarrow> Inl ValueError)"

fun init_loop ::
  "string list \<Rightarrow> int \<times> (int \<Rightarrow> string option) \<Rightarrow> py_error + (int \<times> (int \<Rightarrow> string option))" where
  "init_loop [] st = Inr st"
| "init_loop (p # ps) (mx, m) =
     (case parse_block_path p of
        Inl e \<Rightarrow> Inl e
      | Inr (start_idx, end_idx) \<Rightarrow> init_loop ps (max mx end_idx, m(start_idx \<mapsto> p)))"

definition BlockPathMap_init :: "string list \<Rightarrow> int \<Rightarrow> py_error + BlockPathMap" where
  "BlockPathMap_init block_paths block_size =
     (case init_loop block_paths (0, Map.empty) of
        Inl e \<Rightarrow> Inl e
      | Inr (mx, m) \<Rightarrow>
          Inr \<lparr>max_idx = mx, block_path_map = m, map_block_size = block_size\<rparr>)"

text \<open>
  \<^verbatim>\<open>__getitem__\<close> returns its result and the object as it leaves it. Floor division by a
  zero block size raises \<^verbatim>\<open>ZeroDivisionError\<close>; a start index that is no key raises
  \<^verbatim>\<open>KeyError\<close>.
\<close>

definition getitem :: "BlockPathMap \<Rightarrow> int \<Rightarrow> (py_error + string) \<times> BlockPathMap" where
  "getitem self idx =
     (if map_block_size self = 0 then (Inl ZeroDivisionError, self)
      else (let block_start_idx = map_block_size self * (idx div map_block_size self)
            in case block_path_map self block_start_idx of
                 None \<Rightarrow> (Inl KeyError, self)
               | Some p \<Rightarrow> (Inr p, self)))"

section \<open>Properties\<close>

subsection \<open>Properties of the block ranges\<close>

lemma range_loop_ascending:
  "0 < step \<Longrightarrow>
   range_loop i stop step =
     map (\<lambda>k. i + int k * step) [0..<nat ((stop - i + step - 1) div step)]"
proof (induction i stop step rule: range_loop.induct)
  case (1 i stop step)
  show ?case
  proof (cases "i < stop")
    case True
    define a where "a = stop - i - 1"
    have a0: "0 \<le> a" using True by (simp add: a_def)
    have "(stop - i + step - 1) div step = (a + step) div step"
      by (simp add: a_def algebra_simps)
    also have "\<dots> = a div step + 1"
      using \<open>0 < step\<close> by simp
    finally have len: "nat ((stop - i + step - 1) div step) = Suc (nat (a div step))"
      using a0 \<open>0 < step\<close> by (simp add: pos_imp_zdiv_nonneg_iff nat_add_distrib)
    have len': "nat ((stop - (i + step) + step - 1) div step) = nat (a div step)"
      by (simp add: a_def algebra_simps)
    have "range_loop i stop step = i # range_loop (i + step) stop step"
      using True \<open>0 < step\<close> by (subst range_loop.simps) simp
    also have "\<dots> = i # map (\<lambda>k. (i + step) + int k * step) [0..<nat (a div step)]"
      using "1.IH"(1) [OF \<open>0 < step\<close> True \<open>0 < step\<close>] len' by simp
    also have "\<dots> = map (\<lambda>k. i + int k * step) [0..<Suc (nat (a div step))]"
      by (simp add: map_upt_Suc algebra_simps del: upt_Suc)
    finally show ?thesis using len by simp
  next
    case False
    have "stop - i + step - 1 < step" using False by simp
    then have "(stop - i + step - 1) div step \<le> 0"
      using \<open>0 < step\<close> zdiv_mono1 [of "stop - i + step - 1" "step - 1" step]
      by (simp add: div_pos_pos_trivial)
    moreover have "range_loop i stop step = []"
      using False \<open>0 < step\<close> by (subst range_loop.simps) simp
    ultimately show ?thesis by simp
  qed
qed

lemma block_ranges_closed_form:
  assumes "0 < block_size"
  shows "block_ranges n_samples block_size =
     Inr (map (\<lambda>k. (int k * block_size, min n_samples (int k * block_size + block_size)))
            [0..<n_blocks n_samples block_size])"
  using assms
  by (simp add: block_ranges_def py_range_def range_loop_ascending n_blocks_def
      zip_map2 zip_same_conv_map zip_map1 comp_def)

lemma int_le_div_iff:
  fixes a b c :: int
  assumes "0 < c"
  shows "(a \<le> b div c) = (a * c \<le> b)"
proof
  assume "a \<le> b div c"
  then have "a * c \<le> (b div c) * c" using assms by (simp add: mult_right_mono)
  also have "\<dots> \<le> b" using assms
    by (metis div_mult_mod_eq le_add_same_cancel1 pos_mod_sign)
  finally show "a * c \<le> b" .
next
  assume "a * c \<le> b"
  then have "(a * c) div c \<le> b div c" using assms by (rule zdiv_mono1)
  then show "a \<le> b div c" using assms by simp
qed

lemma less_n_blocks_iff:
  assumes "0 < bs"
  shows "(k < n_blocks n bs) = (int k * bs < n)"
proof -
  have "(k < n_blocks n bs) = (int k + 1 \<le> (n + bs - 1) div bs)"
    by (auto simp add: n_blocks_def zless_nat_eq_int_zless)
  also have "\<dots> = ((int k + 1) * bs \<le> n + bs - 1)"
    using assms by (rule int_le_div_iff)
  also have "\<dots> = (int k * bs < n)"
    by (auto simp add: algebra_simps)
  finally show ?thesis .
qed

lemma n_blocks_pos: "0 < n \<Longrightarrow> 0 < bs \<Longrightarrow> 0 < n_blocks n bs"
  by (simp add: less_n_blocks_iff)

lemma n_blocks_covers: "0 < bs \<Longrightarrow> n \<le> int (n_blocks n bs) * bs"
  using less_n_blocks_iff [of bs "n_blocks n bs" n] by simp

text \<open>
  Claim C1. For every \<open>n_samples > 0\<close> and \<open>block_size > 0\<close> the block ranges of
  \<^verbatim>\<open>get_blocks\<close> tile \<open>[0, n_samples)\<close>: the list is not empty, starts at \<open>0\<close> and ends at
  \<open>n_samples\<close>; each range ends where the next one starts; every range is non-empty and
  at most \<open>block_size\<close> long; all ranges but the last are exactly \<open>block_size\<close> long;
  ranges do not overlap; and an index lies in \<open>[0, n_samples)\<close> exactly when some range
  holds it.
\<close>

theorem get_blocks_ranges_tile:
  assumes "0 < n_samples" and "0 < block_size"
  shows "\<exists>rs. block_ranges n_samples block_size = Inr rs \<and> rs \<noteq> []
    \<and> fst (hd rs) = 0 \<and> snd (last rs) = n_samples
    \<and> (\<forall>i. Suc i < length rs \<longrightarrow> snd (rs ! i) = fst (rs ! Suc i))
    \<and> (\<forall>i < length rs. fst (rs ! i) < snd (rs ! i) \<and> snd (rs ! i) - fst (rs ! i) \<le> block_size)
    \<and> (\<forall>i. Suc i < length rs \<longrightarrow> snd (rs ! i) - fst (rs ! i) = block_size)
    \<and> (\<forall>i j. i < j \<and> j < length rs \<longrightarrow> snd (rs ! i) \<le> fst (rs ! j))
    \<and> (\<forall>x. (0 \<le> x \<and> x < n_samples) = (\<exists>i < length rs. fst (rs ! i) \<le> x \<and> x < snd (rs ! i)))"
proof -
  let ?n = n_samples and ?bs = block_size
  let ?m = "n_blocks ?n ?bs"
  let ?f = "\<lambda>k. (int k * ?bs, min ?n (int k * ?bs + ?bs))"
  define rs where "rs = map ?f [0..<?m]"
  have eq: "block_ranges ?n ?bs = Inr rs"
    using assms by (simp add: block_ranges_closed_form rs_def)
  have len: "length rs = ?m" by (simp add: rs_def)
  have nth: "rs ! i = ?f i" if "i < ?m" for i
    using that by (simp add: rs_def)
  have lt: "int i * ?bs < ?n" if "i < ?m" for i
    using that assms by (simp add: less_n_blocks_iff)
  have mpos: "0 < ?m" using assms by (rule n_blocks_pos)
  have cover: "?n \<le> int ?m * ?bs" using assms(2) by (rule n_blocks_covers)
  have full: "int (Suc i) * ?bs < ?n" if "Suc i < ?m" for i
    using that by (rule lt)
  have ne: "rs \<noteq> []" using mpos len by auto
  have c1: "fst (hd rs) = 0"
    using mpos ne nth [of 0] by (simp add: hd_conv_nth)
  have "int (?m - 1) * ?bs + ?bs = int ?m * ?bs"
    using mpos by (simp add: algebra_simps of_nat_diff)
  then have c2: "snd (last rs) = ?n"
    using mpos ne nth [of "?m - 1"] cover by (simp add: last_conv_nth len)
  have c3: "snd (rs ! i) = fst (rs ! Suc i)" if "Suc i < length rs" for i
    using that full [of i] nth [of i] nth [of "Suc i"] by (simp add: len algebra_simps)
  have c4: "fst (rs ! i) < snd (rs ! i) \<and> snd (rs ! i) - fst (rs ! i) \<le> ?bs"
    if "i < length rs" for i
    using that lt [of i] nth [of i] assms(2) by (simp add: len)
  have c5: "snd (rs ! i) - fst (rs ! i) = ?bs" if "Suc i < length rs" for i
    using that full [of i] nth [of i] by (simp add: len algebra_simps)
  have c6: "snd (rs ! i) \<le> fst (rs ! j)" if "i < j \<and> j < length rs" for i j
  proof -
    have "int (Suc i) \<le> int j" using that by simp
    then have "int (Suc i) * ?bs \<le> int j * ?bs"
      using assms(2) by (intro mult_right_mono) simp_all
    then show ?thesis
      using that nth [of i] nth [of j] by (simp add: len algebra_simps)
  qed
  have c7: "(0 \<le> x \<and> x < ?n) = (\<exists>i < length rs. fst (rs ! i) \<le> x \<and> x < snd (rs ! i))" for x
  proof
    assume x: "0 \<le> x \<and> x < ?n"
    define i where "i = nat (x div ?bs)"
    have i: "int i = x div ?bs" using x assms(2) by (simp add: i_def pos_imp_zdiv_nonneg_iff)
    have lo: "int i * ?bs \<le> x"
      using assms(2) i by (metis div_mult_mod_eq le_add_same_cancel1 pos_mod_sign)
    have hi: "x < int i * ?bs + ?bs"
      using assms(2) i by (metis div_mult_mod_eq add_less_cancel_left pos_mod_bound)
    have "i < ?m" using lo x assms(2) by (simp add: less_n_blocks_iff)
    then show "\<exists>i < length rs. fst (rs ! i) \<le> x \<and> x < snd (rs ! i)"
      using lo hi x nth [of i] by (auto simp add: len)
  next
    assume "\<exists>i < length rs. fst (rs ! i) \<le> x \<and> x < snd (rs ! i)"
    then obtain i where i: "i < ?m" "fst (rs ! i) \<le> x" "x < snd (rs ! i)"
      by (auto simp add: len)
    have nn: "0 \<le> int i * ?bs" using assms(2) by simp
    have "fst (rs ! i) = int i * ?bs" and "snd (rs ! i) \<le> ?n"
      using i(1) nth [of i] by simp_all
    then show "0 \<le> x \<and> x < ?n"
      using i(2,3) nn by linarith
  qed
  show ?thesis
    using eq ne c1 c2 c3 c4 c5 c6 c7 by blast
qed

theorem get_blocks_ranges_tile_witness:
  "block_ranges 250 100 = Inr [(0, 100), (100, 200), (200, 250)]
   \<and> (\<exists>rs. block_ranges 250 100 = Inr rs \<and> rs \<noteq> [] \<and> fst (hd rs) = 0 \<and> snd (last rs) = 250)"
proof
  show "block_ranges 250 100 = Inr [(0, 100), (100, 200), (200, 250)]"
    by (simp add: block_ranges_def py_range_def range_loop.simps)
  have "(0::int) < 250" and "(0::int) < 100" by simp_all
  from get_blocks_ranges_tile [OF this]
  show "\<exists>rs. block_ranges 250 100 = Inr rs \<and> rs \<noteq> [] \<and> fst (hd rs) = 0 \<and> snd (last rs) = 250"
    by blast
qed

subsection \<open>Strings and paths: writing a block path and reading it back\<close>

lemma digit_char_cases:
  assumes "d < 10"
  shows "digit_char d \<in> set ''0123456789'' \<and> digit_val (digit_char d) = d"
proof -
  from assms have "d \<in> {0, 1, 2, 3, 4, 5, 6, 7, 8, 9}" by auto
  then show ?thesis
    by (auto simp add: digit_char_def digit_val_def)
qed

lemma is_digit_digit_char: "d < 10 \<Longrightarrow> is_digit (digit_char d)"
  using digit_char_cases by (simp add: is_digit_def)

lemma digit_val_digit_char: "d < 10 \<Longrightarrow> digit_val (digit_char d) = d"
  using digit_char_cases by simp

lemma str_nat_digits: "list_all is_digit (str_nat n)"
proof (induction n rule: str_nat.induct)
  case (1 n)
  show ?case
  proof (cases "n < 10")
    case True
    then show ?thesis by (subst str_nat.simps) (simp add: is_digit_digit_char)
  next
    case False
    then show ?thesis using 1 by (subst str_nat.simps) (simp add: is_digit_digit_char)
  qed
qed

lemma str_nat_not_Nil: "str_nat n \<noteq> []"
  by (subst str_nat.simps) simp

lemma digits_value_snoc: "digits_value (s @ [c]) = digits_value s * 10 + digit_val c"
  by (simp add: digits_value_def)

lemma digits_value_str_nat: "digits_value (str_nat n) = n"
proof (induction n rule: str_nat.induct)
  case (1 n)
  show ?case
  proof (cases "n < 10")
    case True
    then show ?thesis
      by (subst str_nat.simps) (simp add: digits_value_def digit_val_digit_char)
  next
    case False
    then show ?thesis using 1
      by (subst str_nat.simps) (simp add: digits_value_snoc digit_val_digit_char)
  qed
qed

lemma digits_value_zeros: "digits_value (replicate k CHR ''0'' @ s) = digits_value s"
proof -
  have "foldl (\<lambda>acc c. acc * 10 + digit_val c) 0 (replicate k CHR ''0'') = 0"
    by (induction k) (simp_all add: digit_val_def)
  then show ?thesis by (simp add: digits_value_def)
qed

lemma is_digit_not_space: "is_digit c \<Longrightarrow> \<not> is_space c"
  by (auto simp add: is_digit_def is_space_def)

lemma is_digit_not_special:
  "is_digit c \<Longrightarrow> c \<noteq> CHR ''-'' \<and> c \<noteq> CHR ''+'' \<and> c \<noteq> CHR ''_'' \<and> c \<noteq> CHR ''/'' \<and> c \<noteq> CHR ''.''"
  by (auto simp add: is_digit_def)

lemma strip_digits:
  assumes "list_all is_digit s"
  shows "strip s = s"
proof (cases "s = []")
  case True
  then show ?thesis by (simp add: strip_def)
next
  case False
  have "\<not> is_space (hd s)"
    using assms False by (cases s) (simp_all add: is_digit_not_space)
  then have a: "dropWhile is_space s = s"
    using False by (simp add: dropWhile_eq_self_iff)
  have "\<not> is_space (hd (rev s))"
    using assms False by (simp add: hd_rev list_all_iff is_digit_not_space)
  then have "dropWhile is_space (rev s) = rev s"
    by (simp add: dropWhile_eq_self_iff)
  with a show ?thesis by (simp add: strip_def)
qed

lemma no_double_underscore_digits: "list_all is_digit s \<Longrightarrow> no_double_underscore s"
  by (induction s rule: no_double_underscore.induct) (auto simp add: is_digit_not_special)

lemma py_int_digits:
  assumes "list_all is_digit s" and "s \<noteq> []"
  shows "py_int s = Inr (int (digits_value s))"
proof -
  have hd: "is_digit (hd s)" and last: "is_digit (last s)"
    using assms by (simp_all add: list_all_iff)
  have body: "valid_int_body s"
    using assms hd last
    by (simp add: valid_int_body_def no_double_underscore_digits list_all_iff)
  have filt: "filter is_digit s = s"
    using assms(1) by (simp add: list_all_iff)
  show ?thesis
    using hd assms(2) body filt is_digit_not_special [of "hd s"]
    by (simp add: py_int_def strip_digits [OF assms(1)])
qed


lemma zfill_str_int:
  assumes "0 \<le> i"
  shows "zfill (str_int i) width
    = replicate (nat (width - int (length (str_nat (nat i))))) CHR ''0'' @ str_nat (nat i)"
proof -
  obtain c r where cr: "str_nat (nat i) = c # r"
    using str_nat_not_Nil [of "nat i"] by (cases "str_nat (nat i)") auto
  have "is_digit c" using str_nat_digits [of "nat i"] cr by simp
  then have "c \<noteq> CHR ''+'' \<and> c \<noteq> CHR ''-''" using is_digit_not_special by blast
  then show ?thesis using assms cr by (simp add: zfill_def str_int_def)
qed

lemma is_digit_zero: "is_digit CHR ''0''"
  by (simp add: is_digit_def)

lemma zfill_str_int_digits: "0 \<le> i \<Longrightarrow> list_all is_digit (zfill (str_int i) width)"
  using str_nat_digits [of "nat i"] is_digit_zero by (auto simp add: zfill_str_int list_all_iff)

lemma zfill_str_int_not_Nil: "0 \<le> i \<Longrightarrow> zfill (str_int i) width \<noteq> []"
  by (simp add: zfill_str_int str_nat_not_Nil)

lemma py_int_zfill_str_int: "0 \<le> i \<Longrightarrow> py_int (zfill (str_int i) width) = Inr i"
  by (simp add: py_int_digits zfill_str_int_digits zfill_str_int_not_Nil)
     (simp add: zfill_str_int digits_value_zeros digits_value_str_nat)

lemma split_on_no_sep: "sep \<notin> set a \<Longrightarrow> split_on sep a = [a]"
  by (induction a) auto

lemma split_on_append: "sep \<notin> set a \<Longrightarrow> split_on sep (a @ sep # b) = a # split_on sep b"
  by (induction a) auto

lemma basename_no_sep: "CHR ''/'' \<notin> set name \<Longrightarrow> basename name = name"
proof -
  assume "CHR ''/'' \<notin> set name"
  then have tw: "takeWhile (\<lambda>c. c \<noteq> CHR ''/'') (rev name) = rev name"
    by (auto simp add: takeWhile_eq_all_conv)
  show ?thesis unfolding basename_def tw by simp
qed

lemma basename_append_sep:
  "CHR ''/'' \<notin> set name \<Longrightarrow> basename (d @ CHR ''/'' # name) = name"
proof -
  assume a: "CHR ''/'' \<notin> set name"
  have "takeWhile (\<lambda>c. c \<noteq> CHR ''/'') (rev name @ CHR ''/'' # rev d) = rev name"
    using a by (subst takeWhile_append2) auto
  then show ?thesis by (simp add: basename_def)
qed

lemma basename_path_join:
  assumes "CHR ''/'' \<notin> set name" and "name \<noteq> []"
  shows "basename (path_join d name) = name"
proof -
  have nhd: "hd name \<noteq> CHR ''/''" using assms by (cases name) auto
  show ?thesis
  proof (cases "d = [] \<or> last d = CHR ''/''")
    case True
    show ?thesis
    proof (cases "d = []")
      case True
      then show ?thesis using assms nhd by (simp add: path_join_def basename_no_sep)
    next
      case False
      with True have "d = butlast d @ [CHR ''/'']"
        by (metis append_butlast_last_id)
      then have "d @ name = butlast d @ CHR ''/'' # name"
        by (metis append_Cons append_Nil append_assoc)
      then have "basename (d @ name) = name"
        using assms(1) by (metis basename_append_sep)
      then show ?thesis
        using True assms nhd by (simp add: path_join_def)
    qed
  next
    case False
    then show ?thesis using assms nhd by (simp add: path_join_def basename_append_sep)
  qed
qed

lemma splitext_hdf5:
  assumes "CHR ''.'' \<notin> set stem" and "CHR ''/'' \<notin> set stem" and "stem \<noteq> []"
  shows "splitext (stem @ ''.hdf5'') = (stem, ''.hdf5'')"
proof -
  have tw: "takeWhile (\<lambda>c. c \<noteq> CHR ''.'') (rev (stem @ ''.hdf5'')) = ''5fdh''"
    by simp
  have ex: "\<exists>c \<in> set (basename stem). c \<noteq> CHR ''.''"
    using assms by (cases stem) (auto simp add: basename_no_sep)
  show ?thesis
    unfolding splitext_def tw using ex by (simp add: Let_def)
qed

lemma parse_block_path_block_path:
  assumes "0 \<le> fst r" and "0 \<le> snd r"
  shows "parse_block_path (block_path project_dir n_digits r) = Inr r"
proof -
  let ?a = "zfill (str_int (fst r)) n_digits" and ?b = "zfill (str_int (snd r)) n_digits"
  let ?stem = "?a @ CHR ''-'' # ?b"
  have da: "list_all is_digit ?a" and db: "list_all is_digit ?b"
    using assms by (simp_all add: zfill_str_int_digits)
  have nota: "\<And>c. c \<in> set ?a \<Longrightarrow> is_digit c" and notb: "\<And>c. c \<in> set ?b \<Longrightarrow> is_digit c"
    using da db by (simp_all add: list_all_iff)
  have nodot: "CHR ''.'' \<notin> set ?stem" and noslash: "CHR ''/'' \<notin> set ?stem"
    using nota notb is_digit_not_special by auto
  have nodash: "CHR ''-'' \<notin> set ?a" "CHR ''-'' \<notin> set ?b"
    using nota notb is_digit_not_special by auto
  have name: "?a @ ''-'' @ ?b @ ''.hdf5'' = ?stem @ ''.hdf5''" by simp
  have noslash': "CHR ''/'' \<notin> set (?stem @ ''.hdf5'')" using noslash by simp
  have "basename (block_path project_dir n_digits r) = ?stem @ ''.hdf5''"
    unfolding block_path_def name using noslash' by (intro basename_path_join) simp_all
  moreover have "splitext (?stem @ ''.hdf5'') = (?stem, ''.hdf5'')"
    using nodot noslash by (intro splitext_hdf5) simp_all
  moreover have "split_on CHR ''-'' ?stem = [?a, ?b]"
    using nodash by (simp add: split_on_append split_on_no_sep)
  ultimately show ?thesis
    using assms by (simp add: parse_block_path_def py_int_zfill_str_int)
qed

subsection \<open>The block list and the scanner\<close>

lemma range_loop_negative_step: "0 < stop \<Longrightarrow> step < 0 \<Longrightarrow> range_loop 0 stop step = []"
  by (subst range_loop.simps) simp

lemma all_blocks_of_pos:
  assumes "0 < n_samples" and "0 < block_size"
  shows "all_blocks_of project_dir n_samples block_size
    = Inr (map (nth_block project_dir n_samples block_size) [0..<n_blocks n_samples block_size])"
  using assms
  by (simp add: all_blocks_of_def block_ranges_closed_form n_digits_of_def nth_block_def
      nth_range_def comp_def)

lemma all_blocks_of_neg:
  "0 < n_samples \<Longrightarrow> block_size < 0 \<Longrightarrow> all_blocks_of project_dir n_samples block_size = Inr []"
  by (simp add: all_blocks_of_def block_ranges_def py_range_def range_loop_negative_step
      n_digits_of_def)

lemma all_blocks_of_Inr_iff:
  "(\<exists>bl. all_blocks_of project_dir n_samples block_size = Inr bl)
    = (0 < n_samples \<and> block_size \<noteq> 0)"
proof (cases "0 < n_samples \<and> block_size \<noteq> 0")
  case True
  then show ?thesis
    using all_blocks_of_pos [of n_samples block_size project_dir]
      all_blocks_of_neg [of n_samples block_size project_dir]
    by (cases "0 < block_size") auto
next
  case False
  then show ?thesis
    by (auto simp add: all_blocks_of_def block_ranges_def py_range_def n_digits_of_def
        split: sum.splits)
qed

lemma nth_range_nonneg:
  "0 < n_samples \<Longrightarrow> 0 < block_size \<Longrightarrow>
   0 \<le> fst (nth_range n_samples block_size k) \<and> 0 \<le> snd (nth_range n_samples block_size k)"
  by (simp add: nth_range_def)

lemma nth_range_inj:
  "0 < block_size \<Longrightarrow> nth_range n_samples block_size j = nth_range n_samples block_size k \<Longrightarrow> j = k"
  by (simp add: nth_range_def)

lemma parse_path_nth_block:
  assumes "0 < n_samples" and "0 < block_size"
  shows "parse_block_path (path (nth_block project_dir n_samples block_size k))
    = Inr (nth_range n_samples block_size k)"
  using nth_range_nonneg [OF assms, of k]
  by (simp add: nth_block_def parse_block_path_block_path)

lemma path_nth_block_inj:
  assumes "0 < n_samples" and "0 < block_size"
    and "path (nth_block project_dir n_samples block_size j)
       = path (nth_block project_dir n_samples block_size k)"
  shows "j = k"
proof -
  have "Inr (nth_range n_samples block_size j) = (Inr (nth_range n_samples block_size k) :: py_error + int \<times> int)"
    using parse_path_nth_block [OF assms(1,2), of project_dir j]
      parse_path_nth_block [OF assms(1,2), of project_dir k] assms(3) by simp
  then show ?thesis using assms(2) nth_range_inj by blast
qed

lemma all_blocks_of_distinct_paths:
  assumes "all_blocks_of project_dir n_samples block_size = Inr all_blocks"
  shows "distinct (map path all_blocks)"
proof -
  have n: "0 < n_samples" and b: "block_size \<noteq> 0"
    using assms all_blocks_of_Inr_iff [of project_dir n_samples block_size] by auto
  show ?thesis
  proof (cases "0 < block_size")
    case True
    have "inj_on (\<lambda>k. path (nth_block project_dir n_samples block_size k))
            (set [0..<n_blocks n_samples block_size])"
      using path_nth_block_inj [OF n True] by (auto simp add: inj_on_def)
    then have "distinct (map (\<lambda>k. path (nth_block project_dir n_samples block_size k))
                  [0..<n_blocks n_samples block_size])"
      by (simp add: distinct_map)
    moreover have "map path all_blocks
        = map (\<lambda>k. path (nth_block project_dir n_samples block_size k))
            [0..<n_blocks n_samples block_size]"
    proof -
      have "all_blocks = map (nth_block project_dir n_samples block_size)
              [0..<n_blocks n_samples block_size]"
        using assms all_blocks_of_pos [OF n True, of project_dir] by simp
      then show ?thesis by (simp add: comp_def)
    qed
    ultimately show ?thesis by simp
  next
    case False
    then show ?thesis using assms b all_blocks_of_neg [OF n, of block_size project_dir] by auto
  qed
qed

lemma all_blocks_of_distinct:
  "all_blocks_of project_dir n_samples block_size = Inr all_blocks \<Longrightarrow> distinct all_blocks"
  using all_blocks_of_distinct_paths distinct_map by blast

lemma validate_loop_returns:
  assumes "set ps \<subseteq> S" and "distinct ps" and "\<forall>p \<in> set ps. fs p \<noteq> None"
  shows "\<exists>fs'. validate_loop S v ps fs = Inr fs'
     \<and> (\<forall>p. p \<notin> set ps \<longrightarrow> fs' p = fs p)
     \<and> (\<forall>p \<in> set ps. fs' p = (case fs p of Some (Readable f) \<Rightarrow> if v f then fs p else None | _ \<Rightarrow> None))"
  using assms
proof (induction ps arbitrary: fs)
  case Nil
  then show ?case by simp
next
  case (Cons p ps)
  obtain x where x: "fs p = Some x" using Cons.prems by auto
  let ?keep = "(case x of Readable f \<Rightarrow> v f | Unreadable \<Rightarrow> False)"
  let ?fs1 = "if ?keep then fs else fs(p := None)"
  have step: "validate_loop S v (p # ps) fs = validate_loop S v ps ?fs1"
    using Cons.prems x by (cases x) (simp_all add: os_remove_def)
  have pre: "set ps \<subseteq> S" "distinct ps" "\<forall>q \<in> set ps. ?fs1 q \<noteq> None"
    using Cons.prems by auto
  from Cons.IH [OF pre] obtain fs' where fs':
    "validate_loop S v ps ?fs1 = Inr fs'"
    "\<forall>q. q \<notin> set ps \<longrightarrow> fs' q = ?fs1 q"
    "\<forall>q \<in> set ps. fs' q = (case ?fs1 q of Some (Readable f) \<Rightarrow> if v f then ?fs1 q else None | _ \<Rightarrow> None)"
    by blast
  have pn: "p \<notin> set ps" using Cons.prems by simp
  have a: "\<forall>q. q \<notin> set (p # ps) \<longrightarrow> fs' q = fs q"
    using fs'(2) by auto
  have b: "fs' p = (case fs p of Some (Readable f) \<Rightarrow> if v f then fs p else None | _ \<Rightarrow> None)"
    using fs'(2) pn x by (cases x) auto
  have c: "\<forall>q \<in> set ps. fs' q = (case fs q of Some (Readable f) \<Rightarrow> if v f then fs q else None | _ \<Rightarrow> None)"
    using fs'(3) pn by (auto split: option.splits h5file.splits)
  show ?case using step fs'(1) a b c by auto
qed

lemma validate_loop_no_assertion:
  "set ps \<subseteq> S \<Longrightarrow> validate_loop S v ps fs \<noteq> Inl AssertionError"
proof (induction ps arbitrary: fs)
  case Nil
  then show ?case by simp
next
  case (Cons p ps)
  then show ?case
    by (auto simp add: os_remove_def split: option.splits h5file.splits)
qed

lemma delete_corrupt_returns:
  assumes "distinct (map path all_blocks)"
  shows "\<exists>fs'. delete_corrupt all_blocks v fs = Inr fs'"
proof -
  let ?ps = "filter (os_path_exists fs) (map path all_blocks)"
  have "set ?ps \<subseteq> set (map path all_blocks)" by auto
  moreover have "distinct ?ps" using assms by simp
  moreover have "\<forall>p \<in> set ?ps. fs p \<noteq> None" by (simp add: os_path_exists_def)
  ultimately show ?thesis
    using validate_loop_returns [of ?ps "set (map path all_blocks)" fs v]
    unfolding delete_corrupt_def Let_def by blast
qed

lemma delete_corrupt_no_assertion: "delete_corrupt all_blocks v fs \<noteq> Inl AssertionError"
  unfolding delete_corrupt_def Let_def
  by (rule validate_loop_no_assertion) auto

subsection \<open>The digit width\<close>

lemma ceil_log10:
  assumes "0 < n"
  shows "\<lceil>ln (real_of_int n) / ln 10\<rceil> = int (floorlog 10 (nat (n - 1)))"
proof (cases "n = 1")
  case True
  then show ?thesis by (simp add: floorlog_def)
next
  case False
  define m where "m = nat (n - 1)"
  define k where "k = floorlog 10 m"
  have m: "0 < m" using assms False by (simp add: m_def)
  have b: "10 ^ (k - 1) \<le> m \<and> m < 10 ^ k"
    unfolding k_def using floorlog_bounds [of m 10] m by simp
  have kpos: "0 < k"
    using b m by (cases k) auto
  have "(10::nat) ^ (k - 1) < Suc m" and "Suc m \<le> 10 ^ (k - 1 + 1)"
    using b kpos by auto
  then have "\<lceil>log (real 10) (real (Suc m))\<rceil> = int (k - 1) + 1"
    by (intro ceiling_log_nat_eq_if) simp_all
  moreover have "real (Suc m) = real_of_int n"
    using assms by (simp add: m_def)
  ultimately have "\<lceil>log 10 (real_of_int n)\<rceil> = int k"
    using kpos by simp
  then show ?thesis by (simp add: log_def k_def m_def)
qed

lemma n_digits_of_pos:
  "0 < n_samples \<Longrightarrow> n_digits_of n_samples = Inr (int (floorlog 10 (nat (n_samples - 1))) + 1)"
  by (simp add: n_digits_of_def ceil_log10)

lemma length_str_nat: "length (str_nat m) = (if m = 0 then 1 else floorlog 10 m)"
proof (induction m rule: str_nat.induct)
  case (1 n)
  show ?case
  proof (cases "n < 10")
    case True
    then have "floorlog 10 n = (if n = 0 then 0 else 1)"
      by (subst compute_floorlog) (simp add: compute_floorlog)
    with True show ?thesis by (subst str_nat.simps) simp
  next
    case False
    then have "n div 10 \<noteq> 0" by simp
    moreover have "floorlog 10 n = floorlog 10 (n div 10) + 1"
      using False by (subst compute_floorlog) simp
    ultimately show ?thesis using False 1 by (subst str_nat.simps) simp
  qed
qed

lemma floorlog_Suc_le: "floorlog 10 (Suc m) \<le> floorlog 10 m + 1"
proof (rule floorlog_leI)
  show "Suc m < 10 ^ (floorlog 10 m + 1)"
  proof (cases "m = 0")
    case True
    then show ?thesis by (simp add: floorlog_def)
  next
    case False
    then have "m < 10 ^ floorlog 10 m"
      using floorlog_bounds [of m 10] by simp
    then have "Suc m \<le> 10 ^ floorlog 10 m" by simp
    also have "\<dots> < 10 ^ (floorlog 10 m + 1)" by simp
    finally show ?thesis .
  qed
qed simp_all

lemma length_str_nat_le:
  assumes "m \<le> n" and "0 < n"
  shows "length (str_nat m) \<le> floorlog 10 (n - 1) + 1"
proof (cases "m = 0")
  case True
  then show ?thesis by (simp add: length_str_nat)
next
  case False
  have "floorlog 10 m \<le> floorlog 10 n" using assms(1) by (rule floorlog_mono)
  also have "\<dots> = floorlog 10 (Suc (n - 1))" using assms(2) by simp
  also have "\<dots> \<le> floorlog 10 (n - 1) + 1" by (rule floorlog_Suc_le)
  finally show ?thesis using False by (simp add: length_str_nat)
qed

lemma length_zfill_str_int:
  assumes "0 \<le> i" and "i \<le> n_samples" and "0 < n_samples"
  shows "int (length (zfill (str_int i) (int (floorlog 10 (nat (n_samples - 1))) + 1)))
    = int (floorlog 10 (nat (n_samples - 1))) + 1"
proof -
  have "nat i \<le> nat n_samples" and "0 < nat n_samples" using assms by simp_all
  from length_str_nat_le [OF this]
  have "length (str_nat (nat i)) \<le> floorlog 10 (nat n_samples - 1) + 1" .
  moreover have "nat n_samples - 1 = nat (n_samples - 1)" using assms(3) by simp
  ultimately have "length (str_nat (nat i)) \<le> floorlog 10 (nat (n_samples - 1)) + 1"
    by simp
  then show ?thesis using assms(1) by (simp add: zfill_str_int)
qed

subsection \<open>What get_blocks returns\<close>

lemma str_int_vals:
  "str_int 0 = ''0''" "str_int 100 = ''100''" "str_int 200 = ''200''" "str_int 250 = ''250''"
  by (simp_all add: str_int_def str_nat.simps digit_char_def)

lemma block_path_vals:
  "block_path ''d'' 4 (0, 100) = ''d/0000-0100.hdf5''"
  "block_path ''d'' 4 (100, 200) = ''d/0100-0200.hdf5''"
  "block_path ''d'' 4 (200, 250) = ''d/0200-0250.hdf5''"
  by (simp_all add: block_path_def str_int_vals zfill_def path_join_def eval_nat_numeral)

lemma block_ranges_250_100: "block_ranges 250 100 = Inr [(0, 100), (100, 200), (200, 250)]"
  by (simp add: block_ranges_def py_range_def range_loop.simps)

lemma n_digits_of_250: "n_digits_of 250 = Inr 4"
  by (simp add: n_digits_of_pos compute_floorlog)

lemma all_blocks_of_250_100:
  "all_blocks_of ''d'' 250 100 =
     Inr [\<lparr>range_idxs = (0, 100), path = ''d/0000-0100.hdf5''\<rparr>,
          \<lparr>range_idxs = (100, 200), path = ''d/0100-0200.hdf5''\<rparr>,
          \<lparr>range_idxs = (200, 250), path = ''d/0200-0250.hdf5''\<rparr>]"
  by (simp add: all_blocks_of_def block_ranges_250_100 n_digits_of_250 block_path_vals)

lemma collect_blocks_partition:
  assumes "distinct all_blocks"
  shows "set (existing (collect_blocks all_blocks fs)) \<union> set (missing (collect_blocks all_blocks fs))
           = set all_blocks
    \<and> set (existing (collect_blocks all_blocks fs)) \<inter> set (missing (collect_blocks all_blocks fs)) = {}
    \<and> mset (existing (collect_blocks all_blocks fs)) + mset (missing (collect_blocks all_blocks fs))
           = mset all_blocks
    \<and> distinct (existing (collect_blocks all_blocks fs))
    \<and> distinct (missing (collect_blocks all_blocks fs))"
  using assms by (auto simp add: collect_blocks_def)

lemma get_blocks_returns:
  assumes "0 < n_samples" and "block_size \<noteq> 0"
  shows "\<exists>r. get_blocks rank fs project_dir n_samples block_size validate = Inr r"
proof -
  obtain bl where bl: "all_blocks_of project_dir n_samples block_size = Inr bl"
    using assms all_blocks_of_Inr_iff [of project_dir n_samples block_size] by auto
  have "distinct (map path bl)" using bl by (rule all_blocks_of_distinct_paths)
  then obtain fs' where
    "delete_corrupt bl (case validate of None \<Rightarrow> (\<lambda>f. True) | Some v \<Rightarrow> v) fs = Inr fs'"
    using delete_corrupt_returns by blast
  then show ?thesis
    using bl by (simp add: get_blocks_def)
qed

lemma get_blocks_Inr_D:
  assumes "get_blocks rank fs project_dir n_samples block_size validate = Inr (bs, fs')"
  shows "\<exists>all_blocks. all_blocks_of project_dir n_samples block_size = Inr all_blocks
           \<and> bs = collect_blocks all_blocks fs'"
  using assms by (auto simp add: get_blocks_def Let_def split: sum.splits if_splits)

lemma all_blocks_of_ranges:
  "all_blocks_of project_dir n_samples block_size = Inr all_blocks \<Longrightarrow>
   block_ranges n_samples block_size = Inr (map range_idxs all_blocks)"
  by (auto simp add: all_blocks_of_def comp_def split: sum.splits)

lemma get_blocks_lists_distinct:
  assumes "get_blocks rank fs project_dir n_samples block_size validate = Inr (bs, fs')"
  shows "distinct (existing bs) \<and> distinct (missing bs)"
proof -
  from get_blocks_Inr_D [OF assms] obtain bl
    where bl: "all_blocks_of project_dir n_samples block_size = Inr bl"
      and bs: "bs = collect_blocks bl fs'" by blast
  have "distinct bl" using bl by (rule all_blocks_of_distinct)
  then show ?thesis by (simp add: bs collect_blocks_def)
qed

text \<open>
  Claim C7. \<^verbatim>\<open>get_blocks\<close> returns for every positive \<open>n_samples\<close> and non-zero
  \<open>block_size\<close>, and whenever it returns blocks \<open>bs\<close> and leaves the file system \<open>fs'\<close>,
  the two lists partition the computed block descriptors: \<open>existing\<close> holds exactly
  those whose path exists in \<open>fs'\<close>, \<open>missing\<close> exactly those whose path does not, no
  descriptor is in both, and together they are the computed list (as sets and counted
  with multiplicity, the computed descriptors being pairwise distinct).
\<close>

theorem get_blocks_partition:
  "(0 < n_samples \<and> block_size \<noteq> 0 \<longrightarrow>
      (\<exists>r. get_blocks rank fs project_dir n_samples block_size validate = Inr r))
   \<and> (\<forall>bs fs'. get_blocks rank fs project_dir n_samples block_size validate = Inr (bs, fs') \<longrightarrow>
        (\<exists>all_blocks. all_blocks_of project_dir n_samples block_size = Inr all_blocks
           \<and> distinct all_blocks
           \<and> existing bs = filter (\<lambda>b. os_path_exists fs' (path b)) all_blocks
           \<and> missing bs = filter (\<lambda>b. \<not> os_path_exists fs' (path b)) all_blocks
           \<and> (\<forall>b \<in> set all_blocks.
                 (b \<in> set (existing bs)) = os_path_exists fs' (path b)
               \<and> (b \<in> set (missing bs)) = (\<not> os_path_exists fs' (path b)))
           \<and> set (existing bs) \<union> set (missing bs) = set all_blocks
           \<and> set (existing bs) \<inter> set (missing bs) = {}
           \<and> mset (existing bs) + mset (missing bs) = mset all_blocks))"
proof (intro conjI impI allI)
  assume "0 < n_samples \<and> block_size \<noteq> 0"
  then show "\<exists>r. get_blocks rank fs project_dir n_samples block_size validate = Inr r"
    using get_blocks_returns by blast
next
  fix bs fs'
  assume "get_blocks rank fs project_dir n_samples block_size validate = Inr (bs, fs')"
  then obtain bl where bl: "all_blocks_of project_dir n_samples block_size = Inr bl"
    and bs: "bs = collect_blocks bl fs'"
    using get_blocks_Inr_D by blast
  have d: "distinct bl" using bl by (rule all_blocks_of_distinct)
  have f: "existing bs = filter (\<lambda>b. os_path_exists fs' (path b)) bl"
    "missing bs = filter (\<lambda>b. \<not> os_path_exists fs' (path b)) bl"
    by (simp_all add: bs collect_blocks_def)
  have m: "\<forall>b \<in> set bl. (b \<in> set (existing bs)) = os_path_exists fs' (path b)
               \<and> (b \<in> set (missing bs)) = (\<not> os_path_exists fs' (path b))"
    by (simp add: f)
  show "\<exists>all_blocks. all_blocks_of project_dir n_samples block_size = Inr all_blocks
           \<and> distinct all_blocks
           \<and> existing bs = filter (\<lambda>b. os_path_exists fs' (path b)) all_blocks
           \<and> missing bs = filter (\<lambda>b. \<not> os_path_exists fs' (path b)) all_blocks
           \<and> (\<forall>b \<in> set all_blocks.
                 (b \<in> set (existing bs)) = os_path_exists fs' (path b)
               \<and> (b \<in> set (missing bs)) = (\<not> os_path_exists fs' (path b)))
           \<and> set (existing bs) \<union> set (missing bs) = set all_blocks
           \<and> set (existing bs) \<inter> set (missing bs) = {}
           \<and> mset (existing bs) + mset (missing bs) = mset all_blocks"
    using bl d f m collect_blocks_partition [OF d, of fs'] unfolding bs by blast
qed

lemma get_blocks_250_100_run:
  "get_blocks 0 [''d/0000-0100.hdf5'' \<mapsto> Readable True, ''d/0100-0200.hdf5'' \<mapsto> Readable False,
                 ''d/0200-0250.hdf5'' \<mapsto> Unreadable]
     ''d'' 250 100 (Some (\<lambda>ok. ok))
   = Inr (\<lparr>existing = [\<lparr>range_idxs = (0, 100), path = ''d/0000-0100.hdf5''\<rparr>],
           missing = [\<lparr>range_idxs = (100, 200), path = ''d/0100-0200.hdf5''\<rparr>,
                      \<lparr>range_idxs = (200, 250), path = ''d/0200-0250.hdf5''\<rparr>]\<rparr>,
          [''d/0000-0100.hdf5'' \<mapsto> Readable True])"
  by (auto simp add: get_blocks_def all_blocks_of_250_100 delete_corrupt_def os_path_exists_def
      os_remove_def collect_blocks_def fun_eq_iff)

theorem get_blocks_partition_witness:
  "\<exists>bs fs'.
     get_blocks 0 [''d/0000-0100.hdf5'' \<mapsto> Readable True, ''d/0100-0200.hdf5'' \<mapsto> Readable False,
                   ''d/0200-0250.hdf5'' \<mapsto> Unreadable]
       ''d'' 250 100 (Some (\<lambda>ok. ok)) = Inr (bs, fs')
     \<and> existing bs = [\<lparr>range_idxs = (0, 100), path = ''d/0000-0100.hdf5''\<rparr>]
     \<and> missing bs = [\<lparr>range_idxs = (100, 200), path = ''d/0100-0200.hdf5''\<rparr>,
                      \<lparr>range_idxs = (200, 250), path = ''d/0200-0250.hdf5''\<rparr>]
     \<and> mset (existing bs) + mset (missing bs)
         = mset [\<lparr>range_idxs = (0, 100), path = ''d/0000-0100.hdf5''\<rparr>,
                 \<lparr>range_idxs = (100, 200), path = ''d/0100-0200.hdf5''\<rparr>,
                 \<lparr>range_idxs = (200, 250), path = ''d/0200-0250.hdf5''\<rparr>]"
proof -
  let ?fs = "[''d/0000-0100.hdf5'' \<mapsto> Readable True, ''d/0100-0200.hdf5'' \<mapsto> Readable False,
              ''d/0200-0250.hdf5'' \<mapsto> Unreadable]"
  let ?bs = "\<lparr>existing = [\<lparr>range_idxs = (0, 100), path = ''d/0000-0100.hdf5''\<rparr>],
              missing = [\<lparr>range_idxs = (100, 200), path = ''d/0100-0200.hdf5''\<rparr>,
                         \<lparr>range_idxs = (200, 250), path = ''d/0200-0250.hdf5''\<rparr>]\<rparr>"
  let ?fs' = "[''d/0000-0100.hdf5'' \<mapsto> Readable True]"
  have run: "get_blocks 0 ?fs ''d'' 250 100 (Some (\<lambda>ok. ok)) = Inr (?bs, ?fs')"
    by (rule get_blocks_250_100_run)
  from get_blocks_partition [of 250 100 0 ?fs "''d''" "Some (\<lambda>ok. ok)"] run
  have "\<exists>all_blocks. all_blocks_of ''d'' 250 100 = Inr all_blocks
          \<and> mset (existing ?bs) + mset (missing ?bs) = mset all_blocks"
    by blast
  then have "mset (existing ?bs) + mset (missing ?bs)
      = mset [\<lparr>range_idxs = (0, 100), path = ''d/0000-0100.hdf5''\<rparr>,
              \<lparr>range_idxs = (100, 200), path = ''d/0100-0200.hdf5''\<rparr>,
              \<lparr>range_idxs = (200, 250), path = ''d/0200-0250.hdf5''\<rparr>]"
    unfolding all_blocks_of_250_100 by blast
  with run show ?thesis by (intro exI [of _ ?bs] exI [of _ ?fs']) simp
qed

text \<open>
  Claim C2 (the code does not do this). The directory holds one file, \<^verbatim>\<open>d/stray.hdf5\<close>,
  that is the path of no block computed for \<open>n_samples = 250\<close>, \<open>block_size = 100\<close>.
  On rank 0 \<^verbatim>\<open>get_blocks\<close> completes normally: no assertion fails, all three blocks are
  reported missing and the file is left in place.
\<close>

theorem get_blocks_ignores_unexpected_file:
  "os_path_exists [''d/stray.hdf5'' \<mapsto> Readable ()] ''d/stray.hdf5''
   \<and> get_blocks 0 [''d/stray.hdf5'' \<mapsto> Readable ()] ''d'' 250 100 None
     = Inr (\<lparr>existing = [],
             missing = [\<lparr>range_idxs = (0, 100), path = ''d/0000-0100.hdf5''\<rparr>,
                        \<lparr>range_idxs = (100, 200), path = ''d/0100-0200.hdf5''\<rparr>,
                        \<lparr>range_idxs = (200, 250), path = ''d/0200-0250.hdf5''\<rparr>]\<rparr>,
            [''d/stray.hdf5'' \<mapsto> Readable ()])"
  by (simp add: get_blocks_def all_blocks_of_250_100 delete_corrupt_def os_path_exists_def
      collect_blocks_def)

text \<open>
  More generally the assertion of line 128 cannot fail on any input: the paths it checks
  are drawn from the very list the set is built from.
\<close>

lemma get_blocks_no_assertion:
  "get_blocks rank fs project_dir n_samples block_size validate \<noteq> Inl AssertionError"
proof (cases "all_blocks_of project_dir n_samples block_size")
  case (Inl e)
  then have "e \<noteq> AssertionError"
    by (auto simp add: all_blocks_of_def block_ranges_def py_range_def n_digits_of_def
        split: sum.splits if_splits)
  with Inl show ?thesis by (simp add: get_blocks_def)
next
  case (Inr bl)
  then show ?thesis
    using delete_corrupt_no_assertion [of bl]
    by (auto simp add: get_blocks_def Let_def split: sum.splits)
qed

subsection \<open>Sharding across ranks\<close>

lemma less_ceil_div_iff:
  assumes "0 < (w::nat)"
  shows "(k < (m + w - 1) div w) = (k * w < m)"
proof -
  have "(k < (m + w - 1) div w) = (Suc k \<le> (m + w - 1) div w)" by auto
  also have "\<dots> = (Suc k * w \<le> m + w - 1)"
    using assms by (simp add: less_eq_div_iff_mult_less_eq)
  also have "\<dots> = (k * w < m)" using assms by auto
  finally show ?thesis .
qed

lemma length_slice_step: "length (slice_step xs r w) = (length xs - r + w - 1) div w"
  by (simp add: slice_step_def)

lemma nth_slice_step:
  "k < length (slice_step xs r w) \<Longrightarrow> slice_step xs r w ! k = xs ! (r + k * w)"
  by (simp add: slice_step_def)

lemma less_length_slice_step_iff:
  "0 < w \<Longrightarrow> (k < length (slice_step xs r w)) = (r + k * w < length xs)"
  unfolding length_slice_step using less_ceil_div_iff [of w k "length xs - r"] by auto

lemma length_slice_step_le:
  assumes "0 < w"
  shows "length (slice_step xs r w) \<le> length (slice_step xs 0 w)"
proof -
  have "(length xs - r + w - 1) div w \<le> (length xs - 0 + w - 1) div w"
    by (rule div_le_mono) simp
  then show ?thesis by (simp add: length_slice_step)
qed

lemma foldr_max_upper: "(\<And>y. y \<in> set ys \<Longrightarrow> y \<le> b) \<Longrightarrow> foldr max ys (0::nat) \<le> b"
  by (induction ys) auto

lemma foldr_max_ge: "y \<in> set ys \<Longrightarrow> y \<le> foldr max ys (0::nat)"
  by (induction ys) (auto simp add: max_def)

lemma get_world_max_slices:
  assumes "0 < w"
  shows "get_world_max w (\<lambda>r. length (slice_step xs r w)) = (length xs + w - 1) div w"
proof -
  let ?f = "\<lambda>r. length (slice_step xs r w)"
  have "foldr max (map ?f [0..<w]) 0 \<le> ?f 0"
    using assms by (intro foldr_max_upper) (auto simp add: length_slice_step_le)
  moreover have "?f 0 \<le> foldr max (map ?f [0..<w]) 0"
    using assms by (intro foldr_max_ge) auto
  ultimately show ?thesis by (simp add: get_world_max_def length_slice_step)
qed

lemma map_filter_Some_None:
  "List.map_filter (\<lambda>b. b) (map Some ys @ replicate n None) = ys"
  by (induction ys) (simp_all add: List.map_filter_simps map_filter_def)

lemma rank_blocks_of_eq:
  assumes "0 < w"
  shows "rank_blocks_of r w xs
    = Inr (map Some (slice_step xs r w)
           @ replicate ((length xs + w - 1) div w - length (slice_step xs r w)) None)"
  using assms by (simp add: rank_blocks_of_def get_world_max_slices Let_def)

lemma slice_index_set:
  assumes "0 < w" and "r < w"
  shows "set (map (\<lambda>k. r + k * w) [0..<length (slice_step xs r w)])
    = {i. i < length xs \<and> i mod w = r}"
proof (intro set_eqI iffI)
  fix i
  assume "i \<in> set (map (\<lambda>k. r + k * w) [0..<length (slice_step xs r w)])"
  then obtain k where "k < length (slice_step xs r w)" "i = r + k * w" by auto
  then show "i \<in> {i. i < length xs \<and> i mod w = r}"
    using assms by (simp add: less_length_slice_step_iff)
next
  fix i
  assume "i \<in> {i. i < length xs \<and> i mod w = r}"
  then have i: "i < length xs" "i mod w = r" by auto
  have eq: "i = r + (i div w) * w" using i(2) by (metis add.commute div_mult_mod_eq)
  then have "i div w < length (slice_step xs r w)"
    using assms i(1) by (simp add: less_length_slice_step_iff)
  then show "i \<in> set (map (\<lambda>k. r + k * w) [0..<length (slice_step xs r w)])"
    using eq by (metis (mono_tags, lifting) atLeastLessThan_iff imageI set_map set_upt zero_le)
qed

lemma slice_index_distinct:
  "0 < (w::nat) \<Longrightarrow> distinct (map (\<lambda>k. r + k * w) [0..<n])"
  by (simp add: distinct_map inj_on_def)

lemma mset_slice_step:
  assumes "0 < w" and "r < w"
  shows "mset (slice_step xs r w)
    = image_mset (nth xs) (mset_set {i. i < length xs \<and> i mod w = r})"
proof -
  let ?idx = "map (\<lambda>k. r + k * w) [0..<length (slice_step xs r w)]"
  have "slice_step xs r w = map (nth xs) ?idx"
    by (simp add: slice_step_def comp_def)
  then have "mset (slice_step xs r w) = image_mset (nth xs) (mset ?idx)"
    by (metis mset_map)
  also have "mset ?idx = mset_set (set ?idx)"
    using slice_index_distinct [OF assms(1)] by (simp only: mset_set_set)
  also have "set ?idx = {i. i < length xs \<and> i mod w = r}"
    using assms by (rule slice_index_set)
  finally show ?thesis .
qed

lemma image_mset_sum_fin:
  "image_mset f (\<Sum>r\<in>S. M r) = (\<Sum>r\<in>S. image_mset f (M r))"
  by (induction S rule: infinite_finite_induct) simp_all

lemma sum_mset_set_classes:
  fixes w n :: nat
  assumes "0 < w"
  shows "(\<Sum>r<w. mset_set {i. i < n \<and> i mod w = r}) = mset_set {0..<n}"
proof (rule multiset_eqI)
  fix i
  have fin: "finite {j. j < n \<and> j mod w = r}" for r
    by (rule finite_subset [of _ "{..<n}"]) auto
  have "count (\<Sum>r<w. mset_set {j. j < n \<and> j mod w = r}) i
      = (\<Sum>r<w. count (mset_set {j. j < n \<and> j mod w = r}) i)"
    by (rule count_sum)
  also have "\<dots> = (\<Sum>r<w. if r = i mod w then (if i < n then 1 else 0) else 0)"
    by (intro sum.cong refl) (auto simp add: count_mset_set' fin)
  also have "\<dots> = (if i < n then 1 else 0)"
    using assms by (simp add: sum.delta')
  also have "\<dots> = count (mset_set {0..<n}) i"
    by (simp add: count_mset_set')
  finally show "count (\<Sum>r<w. mset_set {j. j < n \<and> j mod w = r}) i = count (mset_set {0..<n}) i" .
qed

lemma sum_mset_slices:
  assumes "0 < w"
  shows "(\<Sum>r<w. mset (slice_step xs r w)) = mset xs"
proof -
  have "(\<Sum>r<w. mset (slice_step xs r w))
      = (\<Sum>r<w. image_mset (nth xs) (mset_set {i. i < length xs \<and> i mod w = r}))"
    using assms by (intro sum.cong refl) (simp add: mset_slice_step)
  also have "\<dots> = image_mset (nth xs) (\<Sum>r<w. mset_set {i. i < length xs \<and> i mod w = r})"
    by (simp only: image_mset_sum_fin)
  also have "\<dots> = image_mset (nth xs) (mset_set {0..<length xs})"
    using assms by (simp only: sum_mset_set_classes)
  also have "\<dots> = mset (map (nth xs) [0..<length xs])" by simp
  also have "\<dots> = mset xs" by (simp only: map_nth)
  finally show ?thesis .
qed

lemma slices_disjoint:
  assumes "0 < w" and "r < w" and "r' < w" and "r \<noteq> r'" and "distinct xs"
  shows "set (slice_step xs r w) \<inter> set (slice_step xs r' w) = {}"
proof (rule ccontr)
  assume "set (slice_step xs r w) \<inter> set (slice_step xs r' w) \<noteq> {}"
  then obtain x where "x \<in> set (slice_step xs r w)" "x \<in> set (slice_step xs r' w)" by auto
  then obtain k k' where k: "k < length (slice_step xs r w)" "x = xs ! (r + k * w)"
    and k': "k' < length (slice_step xs r' w)" "x = xs ! (r' + k' * w)"
    by (auto simp add: in_set_conv_nth nth_slice_step)
  have "r + k * w < length xs" "r' + k' * w < length xs"
    using k(1) k'(1) assms(1) by (simp_all add: less_length_slice_step_iff)
  then have "r + k * w = r' + k' * w"
    using k(2) k'(2) assms(5) by (simp add: nth_eq_iff_index_eq)
  then have "(r + k * w) mod w = (r' + k' * w) mod w" by simp
  then show False using assms(2,3,4) by simp
qed

lemma ceil_div_real:
  fixes n w :: nat
  assumes "0 < w"
  shows "int ((n + w - 1) div w) = \<lceil>real n / real w\<rceil>"
proof -
  let ?q = "(n + w - 1) div w"
  have lo: "n \<le> ?q * w"
    using less_ceil_div_iff [OF assms, of ?q n] by simp
  have hi: "(?q - 1) * w < n \<or> ?q = 0"
    using less_ceil_div_iff [OF assms, of "?q - 1" n] by auto
  have a: "real n / real w \<le> real ?q"
    using assms lo by (simp add: divide_le_eq flip: of_nat_mult)
  have b: "real ?q - 1 < real n / real w"
  proof (cases "?q = 0")
    case True
    have "(0::real) \<le> real n / real w" by simp
    moreover have "real ?q = 0" using True by simp
    ultimately show ?thesis by linarith
  next
    case False
    with hi have "(?q - 1) * w < n" by simp
    then have "real (?q - 1) * real w < real n" by (simp flip: of_nat_mult)
    then have "real (?q - 1) < real n / real w" using assms by (simp add: less_divide_eq)
    moreover have "real (?q - 1) = real ?q - 1" using False by (simp add: of_nat_diff)
    ultimately show ?thesis by simp
  qed
  show ?thesis using a b by (intro ceiling_unique [symmetric]) simp_all
qed

lemma get_blocks_by_rank_shards:
  assumes "get_blocks_by_rank rank r w fs project_dir n_samples block_size validate = Inr (rb, fs')"
  shows "\<exists>bs. get_blocks rank fs project_dir n_samples block_size validate = Inr (bs, fs')
    \<and> rank_blocks_of r w (existing bs) = Inr (rank_existing rb)
    \<and> rank_blocks_of r w (missing bs) = Inr (rank_missing rb)
    \<and> n_existing_world rb = length (existing bs) \<and> n_missing_world rb = length (missing bs)"
  using assms by (auto simp add: get_blocks_by_rank_def split: sum.splits prod.splits)

text \<open>
  Claim C5. For a world size \<open>W \<ge> 1\<close> and any list (the existing or the missing one),
  every rank \<open>r < W\<close> gets a list whose non-marker entries are, in order, the interleaved
  subsequence \<open>xs[r::W]\<close> (entry \<open>k\<close> is \<open>xs[r + k * W]\<close>), padded with the marker to the length
  \<open>ceil(n / W)\<close>, the same on every rank. The non-marker entries of all ranks together are
  the input list counted with multiplicity, and for a list without repetitions (as the
  lists of \<^verbatim>\<open>get_blocks\<close> are) distinct ranks hold disjoint entries.
\<close>

theorem rank_sharder_partition:
  assumes "0 < W"
  shows "\<exists>shard.
      (\<forall>r<W. rank_blocks_of r W xs = Inr (shard r)
          \<and> List.map_filter (\<lambda>b. b) (shard r) = slice_step xs r W
          \<and> length (shard r) = (length xs + W - 1) div W
          \<and> int (length (shard r)) = \<lceil>real (length xs) / real W\<rceil>
          \<and> (\<forall>k < length (shard r).
                shard r ! k = (if r + k * W < length xs then Some (xs ! (r + k * W)) else None)))
    \<and> (\<Sum>r<W. mset (List.map_filter (\<lambda>b. b) (shard r))) = mset xs
    \<and> (distinct xs \<longrightarrow> (\<forall>r<W. \<forall>r'<W. r \<noteq> r' \<longrightarrow>
          set (List.map_filter (\<lambda>b. b) (shard r)) \<inter> set (List.map_filter (\<lambda>b. b) (shard r')) = {}))"
proof -
  let ?c = "(length xs + W - 1) div W"
  define shard where
    "shard r = map Some (slice_step xs r W) @ replicate (?c - length (slice_step xs r W)) None" for r
  have eq: "rank_blocks_of r W xs = Inr (shard r)" for r
    using assms by (simp add: rank_blocks_of_eq shard_def)
  have real: "List.map_filter (\<lambda>b. b) (shard r) = slice_step xs r W" for r
    by (simp add: shard_def map_filter_Some_None)
  have le: "length (slice_step xs r W) \<le> ?c" for r
    using length_slice_step_le [OF assms, of xs r] by (simp add: length_slice_step)
  have len: "length (shard r) = ?c" for r
    using le [of r] by (simp add: shard_def)
  have nth: "shard r ! k = (if r + k * W < length xs then Some (xs ! (r + k * W)) else None)"
    if "k < length (shard r)" for r k
  proof (cases "r + k * W < length xs")
    case True
    then have "k < length (slice_step xs r W)"
      using assms by (simp add: less_length_slice_step_iff)
    then show ?thesis using True by (simp add: shard_def nth_append nth_slice_step)
  next
    case False
    then have "\<not> k < length (slice_step xs r W)"
      using assms by (simp add: less_length_slice_step_iff)
    then show ?thesis using False that len [of r] by (simp add: shard_def nth_append)
  qed
  have sum: "(\<Sum>r<W. mset (List.map_filter (\<lambda>b. b) (shard r))) = mset xs"
    using assms by (simp add: real sum_mset_slices)
  have dis: "set (List.map_filter (\<lambda>b. b) (shard r)) \<inter> set (List.map_filter (\<lambda>b. b) (shard r')) = {}"
    if "distinct xs" "r < W" "r' < W" "r \<noteq> r'" for r r'
    unfolding real using assms that(2,3,4,1) by (rule slices_disjoint)
  have cl: "int (length (shard r)) = \<lceil>real (length xs) / real W\<rceil>" for r
    unfolding len using assms by (rule ceil_div_real)
  show ?thesis
    by (rule exI [of _ shard]) (use eq real len cl nth sum dis in blast)
qed

theorem rank_sharder_partition_witness:
  "rank_blocks_of 0 2 [10, 11, 12, 13, 14 :: nat] = Inr [Some 10, Some 12, Some 14]
   \<and> rank_blocks_of 1 2 [10, 11, 12, 13, 14 :: nat] = Inr [Some 11, Some 13, None]
   \<and> (\<exists>shard :: nat \<Rightarrow> nat option list. rank_blocks_of 0 2 [10, 11, 12, 13, 14 :: nat] = Inr (shard 0)
        \<and> rank_blocks_of 1 2 [10, 11, 12, 13, 14 :: nat] = Inr (shard 1)
        \<and> length (shard 0) = length (shard 1)
        \<and> (\<Sum>r<2. mset (List.map_filter (\<lambda>b. b) (shard r))) = mset [10, 11, 12, 13, 14 :: nat])"
proof (intro conjI)
  show "rank_blocks_of 0 2 [10, 11, 12, 13, 14 :: nat] = Inr [Some 10, Some 12, Some 14]"
    by code_simp
  show "rank_blocks_of 1 2 [10, 11, 12, 13, 14 :: nat] = Inr [Some 11, Some 13, None]"
    by code_simp
  have "(0::nat) < 2" by simp
  from rank_sharder_partition [OF this, of "[10, 11, 12, 13, 14 :: nat]"]
  obtain shard where s:
    "\<forall>r<2. rank_blocks_of r 2 [10, 11, 12, 13, 14 :: nat] = Inr (shard r)
        \<and> length (shard r) = (length [10, 11, 12, 13, 14 :: nat] + 2 - 1) div 2"
    "(\<Sum>r<2. mset (List.map_filter (\<lambda>b. b) (shard r))) = mset [10, 11, 12, 13, 14 :: nat]"
    by blast
  have h: "rank_blocks_of 0 2 [10, 11, 12, 13, 14 :: nat] = Inr (shard 0)"
    "rank_blocks_of 1 2 [10, 11, 12, 13, 14 :: nat] = Inr (shard 1)"
    "length (shard 0) = length (shard 1)"
    using s(1) by simp_all
  show "\<exists>shard :: nat \<Rightarrow> nat option list. rank_blocks_of 0 2 [10, 11, 12, 13, 14 :: nat] = Inr (shard 0)
        \<and> rank_blocks_of 1 2 [10, 11, 12, 13, 14 :: nat] = Inr (shard 1)
        \<and> length (shard 0) = length (shard 1)
        \<and> (\<Sum>r<2. mset (List.map_filter (\<lambda>b. b) (shard r))) = mset [10, 11, 12, 13, 14 :: nat]"
    by (rule exI [of _ shard]) (simp only: h s(2) simp_thms)
qed

subsection \<open>BlockPathMap: construction and lookup\<close>

lemma init_loop_lookup:
  assumes "\<forall>p \<in> set ps. \<exists>s e. parse_block_path p = Inr (s, e)"
    and "\<forall>p \<in> set ps. \<forall>q \<in> set ps. \<forall>s e e'.
           parse_block_path p = Inr (s, e) \<and> parse_block_path q = Inr (s, e') \<longrightarrow> p = q"
  shows "\<exists>mx' m'. init_loop ps (mx, m) = Inr (mx', m')
    \<and> (\<forall>p \<in> set ps. \<forall>s e. parse_block_path p = Inr (s, e) \<longrightarrow> m' s = Some p)
    \<and> (\<forall>k. (\<forall>p \<in> set ps. \<forall>e. parse_block_path p \<noteq> Inr (k, e)) \<longrightarrow> m' k = m k)"
  using assms
proof (induction ps arbitrary: mx m)
  case Nil
  then show ?case by simp
next
  case (Cons p ps)
  obtain s e where se: "parse_block_path p = Inr (s, e)" using Cons.prems(1) by auto
  have pre1: "\<forall>q \<in> set ps. \<exists>s e. parse_block_path q = Inr (s, e)"
    using Cons.prems(1) by simp
  have pre2: "\<forall>p \<in> set ps. \<forall>q \<in> set ps. \<forall>s e e'.
           parse_block_path p = Inr (s, e) \<and> parse_block_path q = Inr (s, e') \<longrightarrow> p = q"
    using Cons.prems(2) by simp
  from Cons.IH [OF pre1 pre2, of "max mx e" "m(s \<mapsto> p)"]
  obtain mx' m' where r: "init_loop ps (max mx e, m(s \<mapsto> p)) = Inr (mx', m')"
    and a: "\<forall>q \<in> set ps. \<forall>s e. parse_block_path q = Inr (s, e) \<longrightarrow> m' s = Some q"
    and b: "\<forall>k. (\<forall>q \<in> set ps. \<forall>e. parse_block_path q \<noteq> Inr (k, e)) \<longrightarrow> m' k = (m(s \<mapsto> p)) k"
    by blast
  have run: "init_loop (p # ps) (mx, m) = Inr (mx', m')"
    using se r by simp
  have here: "m' s = Some p"
  proof (cases "\<exists>q \<in> set ps. \<exists>e'. parse_block_path q = Inr (s, e')")
    case True
    then obtain q e' where q: "q \<in> set ps" "parse_block_path q = Inr (s, e')" by blast
    then have "p = q" using Cons.prems(2) se by (meson list.set_intros)
    then show ?thesis using a q by blast
  next
    case False
    then have "m' s = (m(s \<mapsto> p)) s" using b by blast
    then show ?thesis by simp
  qed
  have a': "\<forall>q \<in> set (p # ps). \<forall>s e. parse_block_path q = Inr (s, e) \<longrightarrow> m' s = Some q"
    using a here se by auto
  have b': "\<forall>k. (\<forall>q \<in> set (p # ps). \<forall>e. parse_block_path q \<noteq> Inr (k, e)) \<longrightarrow> m' k = m k"
  proof (intro allI impI)
    fix k
    assume k: "\<forall>q \<in> set (p # ps). \<forall>e. parse_block_path q \<noteq> Inr (k, e)"
    then have "k \<noteq> s" using se by auto
    moreover have "m' k = (m(s \<mapsto> p)) k" using b k by simp
    ultimately show "m' k = m k" by simp
  qed
  show ?case using run a' b' by blast
qed

lemma init_loop_dom:
  "init_loop ps (mx, m) = Inr (mx', m') \<Longrightarrow>
   dom m' = dom m \<union> {s. \<exists>p \<in> set ps. \<exists>e. parse_block_path p = Inr (s, e)}"
proof (induction ps arbitrary: mx m)
  case Nil
  then show ?case by simp
next
  case (Cons p ps)
  then obtain s e where se: "parse_block_path p = Inr (s, e)"
    and r: "init_loop ps (max mx e, m(s \<mapsto> p)) = Inr (mx', m')"
    by (auto split: sum.splits)
  from Cons.IH [OF r] have "dom m' = dom (m(s \<mapsto> p)) \<union> {s. \<exists>p \<in> set ps. \<exists>e. parse_block_path p = Inr (s, e)}" .
  then show ?case using se by auto
qed

lemma BlockPathMap_init_dom:
  assumes "BlockPathMap_init block_paths bsz = Inr self"
  shows "map_block_size self = bsz
    \<and> dom (block_path_map self) = {s. \<exists>p \<in> set block_paths. \<exists>e. parse_block_path p = Inr (s, e)}"
proof -
  from assms obtain mx m where r: "init_loop block_paths (0, Map.empty) = Inr (mx, m)"
    and s: "self = \<lparr>max_idx = mx, block_path_map = m, map_block_size = bsz\<rparr>"
    by (auto simp add: BlockPathMap_init_def split: sum.splits)
  from init_loop_dom [OF r] show ?thesis by (simp add: s)
qed

lemma getitem_nonzero:
  "map_block_size self \<noteq> 0 \<Longrightarrow>
   getitem self idx =
     (case block_path_map self (map_block_size self * (idx div map_block_size self)) of
        None \<Rightarrow> Inl KeyError | Some p \<Rightarrow> Inr p, self)"
  by (simp add: getitem_def Let_def split: option.splits)

lemma getitem_zero: "map_block_size self = 0 \<Longrightarrow> getitem self idx = (Inl ZeroDivisionError, self)"
  by (simp add: getitem_def)

lemma getitem_unchanged: "snd (getitem self idx) = self"
  by (simp add: getitem_def Let_def split: option.splits)

text \<open>
  Claim C8, as amended. For a \<^verbatim>\<open>BlockPathMap\<close> constructed with a block size that is not
  zero and every index, the lookup returns \<open>block_path_map[block_start]\<close> for
  \<open>block_start = block_size * (idx // block_size)\<close>; it fails exactly when no scanned path
  has that start index, the failure is then \<^verbatim>\<open>KeyError\<close>, and the object is left unchanged.
\<close>

theorem getitem_lookup:
  assumes "BlockPathMap_init block_paths bsz = Inr self" and "bsz \<noteq> 0"
  shows "getitem self idx =
      (case block_path_map self (bsz * (idx div bsz)) of
         None \<Rightarrow> Inl KeyError | Some p \<Rightarrow> Inr p, self)
    \<and> (fst (getitem self idx) = Inl KeyError)
        = (\<forall>p \<in> set block_paths. \<forall>e. parse_block_path p \<noteq> Inr (bsz * (idx div bsz), e))
    \<and> (\<forall>err. fst (getitem self idx) = Inl err \<longrightarrow> err = KeyError)
    \<and> snd (getitem self idx) = self"
proof -
  note d = BlockPathMap_init_dom [OF assms(1)]
  have nz: "map_block_size self \<noteq> 0" using d assms(2) by simp
  have g: "getitem self idx =
      (case block_path_map self (bsz * (idx div bsz)) of
         None \<Rightarrow> Inl KeyError | Some p \<Rightarrow> Inr p, self)"
    using getitem_nonzero [OF nz, of idx] d by simp
  have "(fst (getitem self idx) = Inl KeyError)
      = (bsz * (idx div bsz) \<notin> dom (block_path_map self))"
    by (simp add: g dom_def split: option.splits)
  also have "\<dots> = (\<forall>p \<in> set block_paths. \<forall>e. parse_block_path p \<noteq> Inr (bsz * (idx div bsz), e))"
    using d by auto
  finally have k: "(fst (getitem self idx) = Inl KeyError)
      = (\<forall>p \<in> set block_paths. \<forall>e. parse_block_path p \<noteq> Inr (bsz * (idx div bsz), e))" .
  have e: "\<forall>err. fst (getitem self idx) = Inl err \<longrightarrow> err = KeyError"
    by (simp add: g split: option.splits)
  show ?thesis using g k e by (simp add: getitem_unchanged)
qed

lemma parse_two_paths:
  "parse_block_path ''d/0000-0100.hdf5'' = Inr (0, 100)"
  "parse_block_path ''d/0100-0200.hdf5'' = Inr (100, 200)"
  "parse_block_path ''d/0200-0250.hdf5'' = Inr (200, 250)"
  by (simp_all add: parse_block_path_def basename_def splitext_def py_int_def strip_def
      is_space_def valid_int_body_def is_digit_def digits_value_def digit_val_def)

theorem getitem_lookup_witness:
  "\<exists>self. BlockPathMap_init [''d/0000-0100.hdf5'', ''d/0100-0200.hdf5''] 100 = Inr self
     \<and> fst (getitem self 150) = Inr ''d/0100-0200.hdf5''
     \<and> fst (getitem self 250) = Inl KeyError
     \<and> snd (getitem self 150) = self"
proof -
  let ?self = "\<lparr>max_idx = 200,
                block_path_map = [0 \<mapsto> ''d/0000-0100.hdf5'', 100 \<mapsto> ''d/0100-0200.hdf5''],
                map_block_size = 100\<rparr>"
  have i: "BlockPathMap_init [''d/0000-0100.hdf5'', ''d/0100-0200.hdf5''] 100 = Inr ?self"
    by (simp add: BlockPathMap_init_def parse_two_paths)
  have nz: "(100::int) \<noteq> 0" by simp
  note t = getitem_lookup [OF i nz]
  have "fst (getitem ?self 150) = Inr ''d/0100-0200.hdf5''"
    using t [of 150] by simp
  moreover have "fst (getitem ?self 250) = Inl KeyError"
    using t [of 250] by simp
  moreover have "snd (getitem ?self 150) = ?self"
    using t [of 150] by blast
  ultimately show ?thesis using i by blast
qed

text \<open>
  The claim as worded fails for a block size of zero: the floor division raises
  \<^verbatim>\<open>ZeroDivisionError\<close> before the dictionary is read, whatever the map holds.
\<close>

theorem getitem_zero_block_size_counterexample:
  "BlockPathMap_init [''d/0000-0100.hdf5''] 0
     = Inr \<lparr>max_idx = 100, block_path_map = [0 \<mapsto> ''d/0000-0100.hdf5''], map_block_size = 0\<rparr>
   \<and> fst (getitem \<lparr>max_idx = 100, block_path_map = [0 \<mapsto> ''d/0000-0100.hdf5''],
                     map_block_size = 0\<rparr> 7) = Inl ZeroDivisionError"
  by (simp add: BlockPathMap_init_def parse_two_paths getitem_def)

text \<open>
  Claim C10, as amended. A \<^verbatim>\<open>BlockPathMap\<close> constructed from no paths has an empty
  \<open>block_path_map\<close> and \<open>max_idx = 0\<close>, and when its block size is not zero every lookup
  on it fails with \<^verbatim>\<open>KeyError\<close>, for every index, leaving the object unchanged.
\<close>

theorem empty_map_lookup:
  assumes "bsz \<noteq> 0"
  shows "BlockPathMap_init [] bsz
      = Inr \<lparr>max_idx = 0, block_path_map = Map.empty, map_block_size = bsz\<rparr>
    \<and> getitem \<lparr>max_idx = 0, block_path_map = Map.empty, map_block_size = bsz\<rparr> idx
      = (Inl KeyError, \<lparr>max_idx = 0, block_path_map = Map.empty, map_block_size = bsz\<rparr>)"
  using assms by (simp add: BlockPathMap_init_def getitem_def)

theorem empty_map_lookup_witness:
  "BlockPathMap_init [] 100
      = Inr \<lparr>max_idx = 0, block_path_map = Map.empty, map_block_size = 100\<rparr>
   \<and> fst (getitem \<lparr>max_idx = 0, block_path_map = Map.empty, map_block_size = 100\<rparr> 5)
      = Inl KeyError"
proof -
  have "(100::int) \<noteq> 0" by simp
  from empty_map_lookup [OF this, of 5] show ?thesis by simp
qed

text \<open>
  The claim as worded fails when the empty map is built with block size zero: the
  lookup raises \<^verbatim>\<open>ZeroDivisionError\<close>, which is not a \<^verbatim>\<open>KeyError\<close>.
\<close>

theorem empty_map_zero_block_size_counterexample:
  "BlockPathMap_init [] 0 = Inr \<lparr>max_idx = 0, block_path_map = Map.empty, map_block_size = 0\<rparr>
   \<and> fst (getitem \<lparr>max_idx = 0, block_path_map = Map.empty, map_block_size = 0\<rparr> 5)
      = Inl ZeroDivisionError"
  by (simp add: BlockPathMap_init_def getitem_def)

subsection \<open>Round trip: from a block list to a map and back\<close>

lemma int_div_unique_block:
  fixes bs x :: int
  assumes "0 < bs" and "int j * bs \<le> x" and "x < int j * bs + bs"
  shows "x div bs = int j"
proof -
  have "x = bs * int j + (x - int j * bs)" by (simp add: algebra_simps)
  moreover have "0 \<le> x - int j * bs" "x - int j * bs < bs" using assms by simp_all
  ultimately show ?thesis by (metis int_div_pos_eq)
qed

text \<open>
  Claim C6. For \<open>n_samples > 0\<close> and \<open>block_size > 0\<close>, a \<^verbatim>\<open>BlockPathMap\<close> built from the
  sorted paths of the blocks \<^verbatim>\<open>get_blocks\<close> computes is constructed without error, and
  for every index in \<open>[0, n_samples)\<close> the lookup returns the path of a block whose
  range holds the index; that block is the only one whose range holds it.
\<close>

theorem block_path_map_round_trip:
  assumes "0 < n_samples" and "0 < block_size" and "0 \<le> idx" and "idx < n_samples"
  shows "\<exists>bl self p. all_blocks_of project_dir n_samples block_size = Inr bl
    \<and> BlockPathMap_init (sort (map path bl)) block_size = Inr self
    \<and> fst (getitem self idx) = Inr p
    \<and> (\<exists>b \<in> set bl. path b = p \<and> fst (range_idxs b) \<le> idx \<and> idx < snd (range_idxs b))
    \<and> (\<forall>b \<in> set bl. fst (range_idxs b) \<le> idx \<and> idx < snd (range_idxs b) \<longrightarrow> path b = p)"
proof -
  let ?m = "n_blocks n_samples block_size"
  let ?nb = "nth_block project_dir n_samples block_size"
  let ?nr = "nth_range n_samples block_size"
  let ?bl = "map ?nb [0..<?m]"
  let ?ps = "sort (map path ?bl)"
  have bl: "all_blocks_of project_dir n_samples block_size = Inr ?bl"
    using assms(1,2) by (rule all_blocks_of_pos)
  have parse: "parse_block_path (path (?nb k)) = Inr (?nr k)" for k
    using assms(1,2) by (rule parse_path_nth_block)
  have mem: "\<exists>k < ?m. p = path (?nb k)" if "p \<in> set ?ps" for p
    using that by auto
  have ok: "\<forall>p \<in> set ?ps. \<exists>s e. parse_block_path p = Inr (s, e)"
  proof
    fix p assume "p \<in> set ?ps"
    then obtain k where "p = path (?nb k)" using mem by blast
    then show "\<exists>s e. parse_block_path p = Inr (s, e)"
      using parse [of k] by (cases "?nr k") auto
  qed
  have inj: "\<forall>p \<in> set ?ps. \<forall>q \<in> set ?ps. \<forall>s e e'.
           parse_block_path p = Inr (s, e) \<and> parse_block_path q = Inr (s, e') \<longrightarrow> p = q"
  proof (intro ballI allI impI)
    fix p q s e e'
    assume p: "p \<in> set ?ps" and q: "q \<in> set ?ps"
      and e: "parse_block_path p = Inr (s, e) \<and> parse_block_path q = Inr (s, e')"
    obtain j where j: "p = path (?nb j)" using mem [OF p] by blast
    obtain k where k: "q = path (?nb k)" using mem [OF q] by blast
    have "fst (?nr j) = s" "fst (?nr k) = s"
      using e parse [of j] parse [of k] by (simp_all add: j k)
    then have "int j * block_size = int k * block_size" by (simp add: nth_range_def)
    then have "j = k" using assms(2) by simp
    then show "p = q" by (simp add: j k)
  qed
  from init_loop_lookup [OF ok inj, of 0 Map.empty]
  obtain mx m where run: "init_loop ?ps (0, Map.empty) = Inr (mx, m)"
    and look: "\<forall>p \<in> set ?ps. \<forall>s e. parse_block_path p = Inr (s, e) \<longrightarrow> m s = Some p"
    by blast
  let ?self = "\<lparr>max_idx = mx, block_path_map = m, map_block_size = block_size\<rparr>"
  have init: "BlockPathMap_init ?ps block_size = Inr ?self"
    using run by (simp add: BlockPathMap_init_def)
  define k where "k = nat (idx div block_size)"
  have kd: "int k = idx div block_size"
    using assms(2,3) by (simp add: k_def pos_imp_zdiv_nonneg_iff)
  have lo: "int k * block_size \<le> idx"
    using assms(2) kd by (metis div_mult_mod_eq le_add_same_cancel1 pos_mod_sign)
  have hi: "idx < int k * block_size + block_size"
    using assms(2) kd by (metis div_mult_mod_eq add_less_cancel_left pos_mod_bound)
  have km: "k < ?m" using lo assms(2,4) by (simp add: less_n_blocks_iff)
  have kin: "path (?nb k) \<in> set ?ps" using km by auto
  have "m (fst (?nr k)) = Some (path (?nb k))"
    using look kin parse [of k] by (cases "?nr k") auto
  moreover have "block_size * (idx div block_size) = fst (?nr k)"
    using kd by (simp add: nth_range_def mult.commute)
  ultimately have get: "fst (getitem ?self idx) = Inr (path (?nb k))"
    using assms(2) by (simp add: getitem_def)
  have rk: "range_idxs (?nb k) = ?nr k" by (simp add: nth_block_def)
  have holds: "fst (range_idxs (?nb k)) \<le> idx \<and> idx < snd (range_idxs (?nb k))"
    using lo hi assms(4) by (simp add: rk nth_range_def)
  have ex: "\<exists>b \<in> set ?bl. path b = path (?nb k)
      \<and> fst (range_idxs b) \<le> idx \<and> idx < snd (range_idxs b)"
    using km holds by auto
  have uniq: "\<forall>b \<in> set ?bl. fst (range_idxs b) \<le> idx \<and> idx < snd (range_idxs b)
      \<longrightarrow> path b = path (?nb k)"
  proof (intro ballI impI)
    fix b
    assume b: "b \<in> set ?bl" and h: "fst (range_idxs b) \<le> idx \<and> idx < snd (range_idxs b)"
    then obtain j where j: "b = ?nb j" by auto
    have "int j * block_size \<le> idx" "idx < int j * block_size + block_size"
      using h by (simp_all add: j nth_block_def nth_range_def)
    then have "idx div block_size = int j"
      using assms(2) by (intro int_div_unique_block)
    then have "j = k" using kd by simp
    then show "path b = path (?nb k)" by (simp add: j)
  qed
  show ?thesis using bl init get ex uniq by blast
qed

lemma sort_three_paths:
  "sort [''d/0000-0100.hdf5'', ''d/0100-0200.hdf5'', ''d/0200-0250.hdf5'']
    = [''d/0000-0100.hdf5'', ''d/0100-0200.hdf5'', ''d/0200-0250.hdf5'']"
  by code_simp

theorem block_path_map_round_trip_witness:
  "\<exists>self. BlockPathMap_init
       (sort [''d/0000-0100.hdf5'', ''d/0100-0200.hdf5'', ''d/0200-0250.hdf5'']) 100 = Inr self
     \<and> fst (getitem self 150) = Inr ''d/0100-0200.hdf5''"
proof -
  have "(0::int) < 250" "(0::int) < 100" "(0::int) \<le> 150" "(150::int) < 250" by simp_all
  from block_path_map_round_trip [OF this, of "''d''"]
  obtain self p where
    i: "BlockPathMap_init (sort [''d/0000-0100.hdf5'', ''d/0100-0200.hdf5'', ''d/0200-0250.hdf5''])
          100 = Inr self"
    and g: "fst (getitem self 150) = Inr p"
    and b: "\<exists>b \<in> set [\<lparr>range_idxs = (0, 100), path = ''d/0000-0100.hdf5''\<rparr>,
          \<lparr>range_idxs = (100, 200), path = ''d/0100-0200.hdf5''\<rparr>,
          \<lparr>range_idxs = (200, 250), path = ''d/0200-0250.hdf5''\<rparr>].
          path b = p \<and> fst (range_idxs b) \<le> 150 \<and> 150 < snd (range_idxs b)"
    unfolding all_blocks_of_250_100 by auto
  from b have "p = ''d/0100-0200.hdf5''" by auto
  with i g show ?thesis by blast
qed

subsection \<open>Double-precision arithmetic\<close>










subsection \<open>The naming of block files\<close>










subsection \<open>Sampling\<close>









lemma sample_run_rank0:
  "sample_blocks rev (Finite 1 (- 1)) [Some (10::nat), Some 12, Some 14] = Inr [Some 14, Some 12]"
  by code_simp







end
